theory Spec2Isabelle
  imports Complex_Main "HOL-Library.Extended_Nat" "HOL-Library.AList" "HOL-Library.Multiset" "HOL-Library.Sublist" "HOL-Library.Char_ord" "HOL-Library.List_Lexorder"
begin

chapter \<open>The embedding\<close>

section \<open>Identifiers and shared enumerations\<close>

text \<open>
  \<^verbatim>\<open>TileId\<close>, \<^verbatim>\<open>VillagerId\<close> and \<^verbatim>\<open>MemoryId\<close> are template-literal string types in
  the source; at run time they are plain strings.  Ticks are JavaScript numbers that every
  entry point passes through \<^verbatim>\<open>assertNonNegativeInteger\<close>; they are modelled as \<open>int\<close>,
  so the "not an integer" half of that assertion is outside the model and the "negative"
  half is the error branch.
\<close>

type_synonym TileId = string
type_synonym VillagerId = string



section \<open>Movement component (src/simulation/movement.ts)\<close>

record VillagerMovementComponent =
  villagerId :: VillagerId
  currentTileId :: TileId
  path :: "TileId list"
  pathIndex :: nat
  lastProcessedTick :: int
  arrivedAtTick :: "int option"

record VillagerArrivalEvent =
  ev_villagerId :: VillagerId
  ev_tileId :: TileId
  ev_tick :: int

record MovementAdvanceResult =
  component :: VillagerMovementComponent
  events :: "VillagerArrivalEvent list"

datatype movement_error =
  NotNonNegativeInteger string
  | PathMustIncludeTile

definition assertNonNegativeInteger :: "int \<Rightarrow> string \<Rightarrow> movement_error + int" where
  "assertNonNegativeInteger v field = (if v < 0 then Inl (NotNonNegativeInteger field) else Inr v)"

definition createVillagerMovementComponent ::
  "VillagerId \<Rightarrow> TileId \<Rightarrow> int \<Rightarrow> movement_error + VillagerMovementComponent" where
  "createVillagerMovementComponent vid startTileId initialTick =
     (case assertNonNegativeInteger initialTick ''initialTick'' of
        Inl e \<Rightarrow> Inl e
      | Inr safeTick \<Rightarrow>
          Inr \<lparr> villagerId = vid, currentTileId = startTileId, path = [startTileId],
                pathIndex = 0, lastProcessedTick = safeTick, arrivedAtTick = Some initialTick \<rparr>)"

definition assignVillagerMovementPath ::
  "VillagerMovementComponent \<Rightarrow> TileId list \<Rightarrow> int \<Rightarrow> movement_error + VillagerMovementComponent" where
  "assignVillagerMovementPath c p t =
     (case assertNonNegativeInteger t ''tick'' of
        Inl e \<Rightarrow> Inl e
      | Inr safeTick \<Rightarrow>
          (case p of
             [] \<Rightarrow> Inl PathMustIncludeTile
           | first # _ \<Rightarrow>
               Inr \<lparr> villagerId = villagerId c, currentTileId = first, path = p,
                     pathIndex = 0, lastProcessedTick = safeTick,
                     arrivedAtTick = (if length p = 1 then Some safeTick else None) \<rparr>))"

text \<open>
  \<^verbatim>\<open>advanceVillagerMovement\<close>.  In the second branch the path has at least two tiles and
  \<open>nextPathIndex \<le> length path - 1\<close>, so the read \<^verbatim>\<open>component.path[nextPathIndex]\<close> is
  always in range.
\<close>

definition advanceVillagerMovement ::
  "VillagerMovementComponent \<Rightarrow> int \<Rightarrow> movement_error + MovementAdvanceResult" where
  "advanceVillagerMovement c t =
     (case assertNonNegativeInteger t ''tick'' of
        Inl e \<Rightarrow> Inl e
      | Inr safeTick \<Rightarrow>
          if safeTick \<le> lastProcessedTick c \<or> length (path c) \<le> 1 then
            Inr \<lparr> component = c\<lparr> lastProcessedTick := max (lastProcessedTick c) safeTick \<rparr>,
                  events = [] \<rparr>
          else
            let tickDelta = safeTick - lastProcessedTick c;
                nextPathIndex = min (length (path c) - 1) (pathIndex c + nat tickDelta);
                nextCurrentTileId = path c ! nextPathIndex;
                reachedDestination = (nextPathIndex = length (path c) - 1);
                distanceToDestination = int (length (path c)) - 1 - int (pathIndex c);
                arrivalTick =
                  (if reachedDestination \<and> arrivedAtTick c = None
                   then Some (lastProcessedTick c + distanceToDestination)
                   else arrivedAtTick c);
                nextComponent = c\<lparr> currentTileId := nextCurrentTileId,
                                     pathIndex := nextPathIndex,
                                     lastProcessedTick := safeTick,
                                     arrivedAtTick := arrivalTick \<rparr>
            in if \<not> reachedDestination \<or> arrivalTick = None \<or> arrivedAtTick c \<noteq> None then
                 Inr \<lparr> component = nextComponent, events = [] \<rparr>
               else
                 Inr \<lparr> component = nextComponent,
                       events = [\<lparr> ev_villagerId = villagerId c, ev_tileId = nextCurrentTileId,
                                  ev_tick = the arrivalTick \<rparr>] \<rparr>)"

text \<open>
  A caller's loop: each tick of the list is fed to \<^verbatim>\<open>advanceVillagerMovement\<close> on the
  component the previous call returned; the results of all calls are kept in order.  A
  throwing call aborts the run.
\<close>

fun advanceTrace ::
  "VillagerMovementComponent \<Rightarrow> int list \<Rightarrow> movement_error + MovementAdvanceResult list" where
  "advanceTrace c [] = Inr []"
| "advanceTrace c (t # ts) =
     (case advanceVillagerMovement c t of
        Inl e \<Rightarrow> Inl e
      | Inr r \<Rightarrow> (case advanceTrace (component r) ts of
                   Inl e \<Rightarrow> Inl e
                 | Inr rs \<Rightarrow> Inr (r # rs)))"

text \<open>
  The invariant every component built by \<^verbatim>\<open>assignVillagerMovementPath\<close> satisfies and
  \<^verbatim>\<open>advanceVillagerMovement\<close> keeps: the path is the assigned one and is not empty, the
  index is inside it, and the arrival marker is set exactly when the index is at the end.
\<close>

definition movementInv :: "TileId list \<Rightarrow> VillagerId \<Rightarrow> VillagerMovementComponent \<Rightarrow> bool" where
  "movementInv p v c \<longleftrightarrow> path c = p \<and> villagerId c = v \<and> p \<noteq> [] \<and> pathIndex c \<le> length p - 1 \<and>
     (arrivedAtTick c = None \<longleftrightarrow> pathIndex c < length p - 1)"

text \<open>
  What a component holds after \<^verbatim>\<open>assignVillagerMovementPath\<close> at tick \<open>t0\<close> and any number of
  \<^verbatim>\<open>advanceVillagerMovement\<close> calls: the last-processed tick is not before \<open>t0\<close>, the index is
  the number of ticks processed since \<open>t0\<close>, clamped to the path end, and the current tile is
  the tile of the path at the index.
\<close>

definition movementRun :: "TileId list \<Rightarrow> VillagerId \<Rightarrow> int \<Rightarrow> VillagerMovementComponent \<Rightarrow> bool" where
  "movementRun p v t0 c \<longleftrightarrow>
     path c = p \<and> villagerId c = v \<and> p \<noteq> [] \<and> t0 \<le> lastProcessedTick c \<and>
     pathIndex c = min (length p - 1) (nat (lastProcessedTick c - t0)) \<and>
     currentTileId c = p ! pathIndex c \<and>
     (arrivedAtTick c = None \<longleftrightarrow> pathIndex c < length p - 1)"

section \<open>Actions and roles (src/domain/actions.ts, src/domain/jobs.ts)\<close>

datatype VillagerActionType = Walk | Farm | Chat | Shop | Rest | Observe

datatype NpcState = Idle | Planning | Moving | Acting | Resting

datatype JobRole = Farmer | Merchant | Fisher | Builder | Caretaker

section \<open>Replan scheduling (src/simulation/replanning.ts and the replan effect of the game page)\<close>

datatype NpcReplanReason = Cadence | MajorEvent

record PersistedNpcIntent =
  intent_action :: VillagerActionType
  intent_targetTileId :: "TileId option"
  intent_reasoning :: string
  intent_plannedAtTick :: int

record NpcReplanState =
  lastPlanTick :: "int option"
  lastPlanSignature :: "string option"
  lastMajorEventTick :: "int option"
  intent :: "PersistedNpcIntent option"
  intentUpdatedAtTick :: "int option"

record ShouldRequestNpcReplanInput =
  in_tick :: int
  in_intervalTicks :: int
  in_promptSignature :: string
  in_lastPlanTick :: "int option"
  in_lastPlanSignature :: "string option"
  in_lastMajorEventTick :: "int option"

definition shouldRequestNpcReplan :: "ShouldRequestNpcReplanInput \<Rightarrow> NpcReplanReason option" where
  "shouldRequestNpcReplan inp =
     (let cadenceDue =
            (case in_lastPlanTick inp of
               None \<Rightarrow> True
             | Some lp \<Rightarrow> in_tick inp - lp \<ge> in_intervalTicks inp);
          majorEventDue =
            (case in_lastMajorEventTick inp of
               None \<Rightarrow> False
             | Some me \<Rightarrow> (case in_lastPlanTick inp of None \<Rightarrow> True | Some lp \<Rightarrow> me > lp))
      in if \<not> cadenceDue \<and> \<not> majorEventDue then None
         else if in_lastPlanSignature inp = Some (in_promptSignature inp) then None
         else Some (if majorEventDue then MajorEvent else Cadence))"

text \<open>
  The replan effect of the game page.  A runtime entry carries many fields; the two the
  effect reads and writes here are the villager's id and its replan state, every other
  field is copied by the object spread and lives in the record's extension.
\<close>

record VillagerRuntime =
  rt_villagerId :: VillagerId
  rt_replan :: NpcReplanState

text \<open>The due-ness evaluation of one agent: the call at lines 766-773 of the effect.\<close>

definition replanReasonFor ::
  "int \<Rightarrow> int \<Rightarrow> string \<Rightarrow> 'a VillagerRuntime_scheme \<Rightarrow> NpcReplanReason option" where
  "replanReasonFor t intervalTicks promptSignature runtime =
     shouldRequestNpcReplan
       \<lparr> in_tick = t, in_intervalTicks = intervalTicks, in_promptSignature = promptSignature,
         in_lastPlanTick = lastPlanTick (rt_replan runtime),
         in_lastPlanSignature = lastPlanSignature (rt_replan runtime),
         in_lastMajorEventTick = lastMajorEventTick (rt_replan runtime) \<rparr>"

record ApiNpcDecision =
  api_action :: VillagerActionType
  api_targetTileId :: "TileId option"
  api_reasoning :: string

text \<open>
  The two completion handlers of a request issued for villager \<open>vid\<close> at tick \<open>t\<close> with
  signature \<open>promptSignature\<close>: the state update of the \<^verbatim>\<open>.then\<close> branch and the one of
  the \<^verbatim>\<open>.catch\<close> branch.
\<close>

definition replanSucceeded ::
  "VillagerId \<Rightarrow> int \<Rightarrow> string \<Rightarrow> ApiNpcDecision \<Rightarrow>
   'a VillagerRuntime_scheme list \<Rightarrow> 'a VillagerRuntime_scheme list" where
  "replanSucceeded vid t promptSignature decision current =
     map (\<lambda>entry.
            if rt_villagerId entry = vid then
              entry\<lparr> rt_replan := (rt_replan entry)
                \<lparr> intent := Some \<lparr> intent_action = api_action decision,
                                   intent_targetTileId = api_targetTileId decision,
                                   intent_reasoning = api_reasoning decision,
                                   intent_plannedAtTick = t \<rparr>,
                  intentUpdatedAtTick := Some t,
                  lastPlanTick := Some t,
                  lastPlanSignature := Some promptSignature \<rparr> \<rparr>
            else entry) current"

definition replanFailed ::
  "VillagerId \<Rightarrow> int \<Rightarrow> string \<Rightarrow>
   'a VillagerRuntime_scheme list \<Rightarrow> 'a VillagerRuntime_scheme list" where
  "replanFailed vid t promptSignature current =
     map (\<lambda>entry.
            if rt_villagerId entry = vid then
              entry\<lparr> rt_replan := (rt_replan entry)
                \<lparr> lastPlanTick := Some t, lastPlanSignature := Some promptSignature \<rparr> \<rparr>
            else entry) current"

datatype ReplanOutcome = Succeeded ApiNpcDecision | Failed

definition completeReplan ::
  "VillagerId \<Rightarrow> int \<Rightarrow> string \<Rightarrow> ReplanOutcome \<Rightarrow>
   'a VillagerRuntime_scheme list \<Rightarrow> 'a VillagerRuntime_scheme list" where
  "completeReplan vid t promptSignature outcome current =
     (case outcome of
        Succeeded decision \<Rightarrow> replanSucceeded vid t promptSignature decision current
      | Failed \<Rightarrow> replanFailed vid t promptSignature current)"

section \<open>Schedule index (src/simulation/schedule.ts)\<close>

record SimulationTime =
  st_tick :: int
  st_day :: int
  minuteOfDay :: int

record VillagerScheduleSlot =
  hour :: int
  slot_action :: VillagerActionType
  slot_targetTileId :: TileId

text \<open>
  Of a \<^verbatim>\<open>Villager\<close> the simulation core reads the id, the role and the base schedule; the
  remaining fields (name, tiles, mood, traits) live in the record's extension.
\<close>

record Villager =
  villager_id :: VillagerId
  villager_role :: JobRole
  baseSchedule :: "VillagerScheduleSlot list"

record VillagerScheduleEntry =
  startMinute :: int
  entry_action :: VillagerActionType
  entry_targetTileId :: TileId

record VillagerDailySchedule =
  schedule_villagerId :: VillagerId
  entries :: "VillagerScheduleEntry list"

datatype TaskSource = FromSchedule | FromIdle

record ActiveVillagerTask =
  task_villagerId :: VillagerId
  task_action :: VillagerActionType
  task_targetTileId :: "TileId option"
  task_source :: TaskSource

datatype schedule_error =
  InvalidScheduleHour
  | DuplicateScheduleHours VillagerId
  | ReadOfUndefinedEntry

definition MINUTES_PER_HOUR :: int where "MINUTES_PER_HOUR = 60"
definition MINUTES_PER_DAY :: int where "MINUTES_PER_DAY = 1440"
definition IDLE_ACTION :: VillagerActionType where "IDLE_ACTION = Observe"

definition normalizeHourToMinute :: "int \<Rightarrow> schedule_error + int" where
  "normalizeHourToMinute h =
     (if h < 0 \<or> h \<ge> MINUTES_PER_DAY div MINUTES_PER_HOUR then Inl InvalidScheduleHour
      else Inr (h * MINUTES_PER_HOUR))"

text \<open>The \<^verbatim>\<open>map\<close> over the base schedule; the first invalid hour throws.\<close>

fun slotsToEntries :: "VillagerScheduleSlot list \<Rightarrow> schedule_error + VillagerScheduleEntry list" where
  "slotsToEntries [] = Inr []"
| "slotsToEntries (slot # slots) =
     (case normalizeHourToMinute (hour slot) of
        Inl e \<Rightarrow> Inl e
      | Inr m \<Rightarrow>
          (case slotsToEntries slots of
             Inl e \<Rightarrow> Inl e
           | Inr es \<Rightarrow> Inr (\<lparr> startMinute = m, entry_action = slot_action slot,
                               entry_targetTileId = slot_targetTileId slot \<rparr> # es)))"

text \<open>The loop over adjacent pairs of the sorted entries.\<close>

fun hasDuplicateNeighbours :: "VillagerScheduleEntry list \<Rightarrow> bool" where
  "hasDuplicateNeighbours (a # b # rest) =
     (startMinute a = startMinute b \<or> hasDuplicateNeighbours (b # rest))"
| "hasDuplicateNeighbours _ = False"

text \<open>
  \<^verbatim>\<open>Array.prototype.sort\<close> with the comparator \<^verbatim>\<open>left.startMinute - right.startMinute\<close> is
  a stable sort by start minute, as \<^const>\<open>sort_key\<close> is.
\<close>

definition createVillagerDailySchedule ::
  "'a Villager_scheme \<Rightarrow> schedule_error + VillagerDailySchedule" where
  "createVillagerDailySchedule villager =
     (case slotsToEntries (baseSchedule villager) of
        Inl e \<Rightarrow> Inl e
      | Inr mapped \<Rightarrow>
          let sorted_entries = sort_key startMinute mapped
          in if hasDuplicateNeighbours sorted_entries
             then Inl (DuplicateScheduleHours (villager_id villager))
             else Inr \<lparr> schedule_villagerId = villager_id villager, entries = sorted_entries \<rparr>)"

text \<open>
  The binary search of \<^verbatim>\<open>resolveActiveVillagerTask\<close>.  \<^verbatim>\<open>(low + high) >> 1\<close> is the floor of
  the half for the sums that occur (array indices; the 32-bit truncation of the shift's
  operand needs more than \<open>2^30\<close> entries, and a schedule has at most 24).  Reading
  \<^verbatim>\<open>entries[mid].startMinute\<close> outside the array would throw; that is the error branch.
\<close>

function resolveLoop ::
  "VillagerScheduleEntry list \<Rightarrow> int \<Rightarrow> int \<Rightarrow> int \<Rightarrow> VillagerScheduleEntry option \<Rightarrow>
   schedule_error + VillagerScheduleEntry option" where
  "resolveLoop es m low high activeEntry =
     (if low \<le> high then
        let mid = (low + high) div 2 in
        if mid < 0 \<or> mid \<ge> int (length es) then Inl ReadOfUndefinedEntry
        else if startMinute (es ! nat mid) \<le> m
             then resolveLoop es m (mid + 1) high (Some (es ! nat mid))
             else resolveLoop es m low (mid - 1) activeEntry
      else Inr activeEntry)"
  by pat_completeness auto
termination
  by (relation "measure (\<lambda>(es, m, low, high, activeEntry). nat (high - low + 1))") auto

definition resolveActiveVillagerTask ::
  "VillagerDailySchedule \<Rightarrow> 'a SimulationTime_scheme \<Rightarrow> schedule_error + ActiveVillagerTask" where
  "resolveActiveVillagerTask schedule time =
     (case resolveLoop (entries schedule) (minuteOfDay time) 0 (int (length (entries schedule)) - 1) None of
        Inl e \<Rightarrow> Inl e
      | Inr None \<Rightarrow>
          Inr \<lparr> task_villagerId = schedule_villagerId schedule, task_action = IDLE_ACTION,
                task_targetTileId = None, task_source = FromIdle \<rparr>
      | Inr (Some activeEntry) \<Rightarrow>
          Inr \<lparr> task_villagerId = schedule_villagerId schedule,
                task_action = entry_action activeEntry,
                task_targetTileId = Some (entry_targetTileId activeEntry),
                task_source = FromSchedule \<rparr>)"

section \<open>Decision guardrail (the LLM adapter's policy pipeline)\<close>

text \<open>
  Of the \<^verbatim>\<open>NpcPromptInput\<close> context the policy rules read the role and the minute of day of
  the world time; the other fields live in the record's extension.  The two
  \<^verbatim>\<open>console\<close> log calls of the pipeline write nothing the result depends on and are
  left out.
\<close>

record NpcPromptInput =
  prompt_role :: JobRole
  prompt_worldTime :: SimulationTime

record NpcDecision =
  decision_action :: VillagerActionType
  decision_reasoning :: string
  decision_targetTileId :: "TileId option"

datatype PolicyOutcomeKind = RewriteOutcome | BlockOutcome

record NpcDecisionPolicyViolation =
  policyId :: string
  violation_reason :: string
  originalAction :: VillagerActionType
  finalAction :: VillagerActionType
  violation_outcome :: PolicyOutcomeKind

datatype PolicyOutcome =
  Rewrite VillagerActionType string
  | Block string

record 'ctx DecisionPolicyRule =
  rule_id :: string
  disallowedActions :: "VillagerActionType list"
  evaluate :: "'ctx \<Rightarrow> bool"
  rule_outcome :: PolicyOutcome

datatype llm_error = LlmAdapterApiError string int

definition DECISION_POLICY_RULES :: "'a NpcPromptInput_scheme DecisionPolicyRule list" where
  "DECISION_POLICY_RULES =
     [ \<lparr> rule_id = ''role-restriction-shop'',
         disallowedActions = [Shop],
         evaluate = (\<lambda>context. prompt_role context \<noteq> Merchant),
         rule_outcome = Block ''Only merchant-role villagers may execute shop actions.'' \<rparr>,
       \<lparr> rule_id = ''role-restriction-farm'',
         disallowedActions = [Farm],
         evaluate = (\<lambda>context. prompt_role context \<noteq> Farmer),
         rule_outcome = Rewrite Observe ''Non-farmer villagers cannot execute farm actions.'' \<rparr>,
       \<lparr> rule_id = ''quiet-hours-social'',
         disallowedActions = [Chat, Shop],
         evaluate = (\<lambda>context. minuteOfDay (prompt_worldTime context) < 360 \<or>
                                 minuteOfDay (prompt_worldTime context) \<ge> 1320),
         rule_outcome = Rewrite Observe
           ''Social and market actions are disallowed during quiet hours.'' \<rparr> ]"

definition actionRequiresTarget :: "VillagerActionType \<Rightarrow> bool" where
  "actionRequiresTarget a \<longleftrightarrow> a = Walk \<or> a = Farm \<or> a = Shop"

record DecisionModerationState =
  moderatedAction :: VillagerActionType
  moderatedTargetTileId :: "TileId option"
  policyViolations :: "NpcDecisionPolicyViolation list"

text \<open>The \<^verbatim>\<open>for\<close> loop of \<^verbatim>\<open>applyDecisionGuardrails\<close> over the rules that remain.\<close>

fun guardrailLoop ::
  "'ctx DecisionPolicyRule list \<Rightarrow> 'ctx \<Rightarrow> DecisionModerationState \<Rightarrow>
   llm_error + DecisionModerationState" where
  "guardrailLoop [] context st = Inr st"
| "guardrailLoop (rule # rules) context st =
     (if moderatedAction st \<notin> set (disallowedActions rule) \<or> \<not> evaluate rule context then
        guardrailLoop rules context st
      else
        (case rule_outcome rule of
           Block reason \<Rightarrow>
             Inl (LlmAdapterApiError
                    (''Decision blocked by policy '' @ rule_id rule @ '': '' @ reason) 422)
         | Rewrite newAction reason \<Rightarrow>
             guardrailLoop rules context
               \<lparr> moderatedAction = newAction,
                 moderatedTargetTileId =
                   (if \<not> actionRequiresTarget newAction then None else moderatedTargetTileId st),
                 policyViolations = policyViolations st @
                   [\<lparr> policyId = rule_id rule, violation_reason = reason,
                      originalAction = moderatedAction st, finalAction = newAction,
                      violation_outcome = RewriteOutcome \<rparr>] \<rparr>))"

datatype DecisionValidity = Accepted | Rewritten

record DecisionModerationResult =
  moderated_decision :: NpcDecision
  decisionValidity :: DecisionValidity
  moderated_policyViolations :: "NpcDecisionPolicyViolation list"

definition applyDecisionGuardrails ::
  "NpcDecision \<Rightarrow> 'a NpcPromptInput_scheme \<Rightarrow> llm_error + DecisionModerationResult" where
  "applyDecisionGuardrails decision context =
     (case guardrailLoop DECISION_POLICY_RULES context
             \<lparr> moderatedAction = decision_action decision,
               moderatedTargetTileId = decision_targetTileId decision,
               policyViolations = [] \<rparr> of
        Inl e \<Rightarrow> Inl e
      | Inr st \<Rightarrow>
          Inr \<lparr> moderated_decision =
                  \<lparr> decision_action = moderatedAction st,
                    decision_reasoning = decision_reasoning decision,
                    decision_targetTileId = moderatedTargetTileId st \<rparr>,
                decisionValidity = (if length (policyViolations st) > 0 then Rewritten else Accepted),
                moderated_policyViolations = policyViolations st \<rparr>)"

section \<open>Tiles (src/domain/tiles.ts)\<close>

datatype TileType = PathTile | HomeTile | PlazaTile | FarmTile | ShopTile | WaterTile | TreeTile

text \<open>Coordinates are integers on every map the repository builds.\<close>

record TileCoordinate =
  coord_x :: int
  coord_y :: int

record Tile =
  tile_id :: TileId
  coordinate :: TileCoordinate
  tile_type :: TileType
  walkable :: bool

section \<open>Pathfinding service with the binary-heap search\<close>

text \<open>
  A JavaScript \<^verbatim>\<open>Map\<close> whose iteration order or finiteness matters is an association list
  in insertion order: \<^verbatim>\<open>get\<close> is \<^const>\<open>map_of\<close>, \<^verbatim>\<open>set\<close> is \<^const>\<open>AList.update\<close> (an
  existing key keeps its place, a new key goes to the end) and \<^verbatim>\<open>delete\<close> is
  \<^const>\<open>AList.delete\<close>.  The maps \<^verbatim>\<open>cameFrom\<close> and \<^verbatim>\<open>gScore\<close> are only read and written by
  key and are HOL maps; \<^verbatim>\<open>closedSet\<close> is only tested and extended and is a HOL set.

  Scores are JavaScript numbers that are either non-negative integers or
  \<^verbatim>\<open>Number.POSITIVE_INFINITY\<close>: the type \<open>enat\<close>.
\<close>

type_synonym ('k, 'v) js_map = "('k \<times> 'v) list"

record PathfindingNode =
  node_id :: TileId
  node_x :: int
  node_y :: int
  node_walkable :: bool
  neighbors :: "TileId list"

text \<open>
  \<^verbatim>\<open>toCoordinateKey\<close> formats the two integers as \<^verbatim>\<open>"x,y"\<close>; the string determines the pair
  and is modelled by it.
\<close>

definition toCoordinateKey :: "int \<Rightarrow> int \<Rightarrow> int \<times> int" where
  "toCoordinateKey cx cy = (cx, cy)"

definition createNodesById :: "Tile list \<Rightarrow> (TileId, PathfindingNode) js_map" where
  "createNodesById tiles =
     (let coordinatesToId =
            fold (\<lambda>tile m. AList.update
                    (toCoordinateKey (coord_x (coordinate tile)) (coord_y (coordinate tile)))
                    (tile_id tile) m) tiles []
      in fold (\<lambda>tile nodesById.
                 let cx = coord_x (coordinate tile); cy = coord_y (coordinate tile);
                     found = List.map_filter (map_of coordinatesToId)
                       [toCoordinateKey (cx + 1) cy, toCoordinateKey (cx - 1) cy,
                        toCoordinateKey cx (cy + 1), toCoordinateKey cx (cy - 1)]
                 in AList.update (tile_id tile)
                      \<lparr> node_id = tile_id tile, node_x = cx, node_y = cy,
                        node_walkable = walkable tile, neighbors = found \<rparr> nodesById)
              tiles [])"

definition heuristicDistance :: "(TileId, PathfindingNode) js_map \<Rightarrow> TileId \<Rightarrow> TileId \<Rightarrow> enat" where
  "heuristicDistance nodesById fromId toId =
     (case (map_of nodesById fromId, map_of nodesById toId) of
        (Some fromNode, Some toNode) \<Rightarrow>
          enat (nat (\<bar>node_x fromNode - node_x toNode\<bar> + \<bar>node_y fromNode - node_y toNode\<bar>))
      | _ \<Rightarrow> \<infinity>)"

subsection \<open>The binary min-heap\<close>

record HeapEntry =
  heap_id :: TileId
  heap_score :: enat

text \<open>
  \<^verbatim>\<open>bubbleUp\<close> is called with the index of the entry just pushed and \<^verbatim>\<open>sinkDown\<close> with
  index 0 of a non-empty array; every array read of the two loops is then inside the
  array.  \<^verbatim>\<open>(index - 1) >> 1\<close> on a positive index is the floor of the half.
\<close>

definition swapEntries :: "HeapEntry list \<Rightarrow> nat \<Rightarrow> nat \<Rightarrow> HeapEntry list" where
  "swapEntries h i j = h[i := h ! j, j := h ! i]"

function bubbleUp :: "HeapEntry list \<Rightarrow> nat \<Rightarrow> HeapEntry list" where
  "bubbleUp h index =
     (if index > 0 then
        let parentIndex = (index - 1) div 2 in
        if heap_score (h ! parentIndex) \<le> heap_score (h ! index) then h
        else bubbleUp (swapEntries h parentIndex index) parentIndex
      else h)"
  by pat_completeness auto
termination
  by (relation "measure (\<lambda>(h, index). index)") auto

declare bubbleUp.simps [simp del]

function sinkDown :: "HeapEntry list \<Rightarrow> nat \<Rightarrow> HeapEntry list" where
  "sinkDown h index =
     (let len = length h;
          left = 2 * index + 1;
          right = 2 * index + 2;
          smallest = (if left < len \<and> heap_score (h ! left) < heap_score (h ! index)
                      then left else index);
          smallest = (if right < len \<and> heap_score (h ! right) < heap_score (h ! smallest)
                      then right else smallest)
      in if smallest = index then h
         else sinkDown (swapEntries h smallest index) smallest)"
  by pat_completeness auto
termination
  by (relation "measure (\<lambda>(h, index). length h - index)")
     (auto simp: swapEntries_def split: if_splits)

declare sinkDown.simps [simp del]

definition heapPush :: "HeapEntry list \<Rightarrow> TileId \<Rightarrow> enat \<Rightarrow> HeapEntry list" where
  "heapPush h i s =
     (let h = h @ [\<lparr> heap_id = i, heap_score = s \<rparr>] in bubbleUp h (length h - 1))"

definition heapPop :: "HeapEntry list \<Rightarrow> TileId option \<times> HeapEntry list" where
  "heapPop h =
     (if length h = 0 then (None, h)
      else
        let top = h ! 0;
            lastEntry = last h;
            h = butlast h;
            h = (if length h > 0 then sinkDown (h[0 := lastEntry]) 0 else h)
        in (Some (heap_id top), h))"

subsection \<open>The search\<close>

record SearchState =
  closedSet :: "TileId set"
  cameFrom :: "TileId \<rightharpoonup> TileId"
  gScore :: "TileId \<rightharpoonup> enat"
  heap :: "HeapEntry list"

text \<open>\<^verbatim>\<open>gScore.get(id) ?? Number.POSITIVE_INFINITY\<close>\<close>

definition scoreOrInfinity :: "(TileId \<rightharpoonup> enat) \<Rightarrow> TileId \<Rightarrow> enat" where
  "scoreOrInfinity g i = (case g i of None \<Rightarrow> \<infinity> | Some s \<Rightarrow> s)"

text \<open>
  \<^verbatim>\<open>reconstructPath\<close> walks the \<^verbatim>\<open>cameFrom\<close> links until a tile has none.  On a map whose
  links form a cycle the loop does not end, so its result is an option whose \<open>None\<close> is
  "does not return".  An empty string is falsy in JavaScript: it ends the walk as a
  missing link does.
\<close>

partial_function (option) reconstructLoop ::
  "(TileId \<rightharpoonup> TileId) \<Rightarrow> TileId list \<Rightarrow> TileId \<Rightarrow> TileId list option" where
  "reconstructLoop cf reversePath currentStep =
     (if currentStep = [] then Some reversePath
      else case cf currentStep of
             None \<Rightarrow> Some reversePath
           | Some previousStep \<Rightarrow>
               if previousStep = [] then Some reversePath
               else reconstructLoop cf (reversePath @ [previousStep]) previousStep)"

definition reconstructPath :: "(TileId \<rightharpoonup> TileId) \<Rightarrow> TileId \<Rightarrow> TileId list option" where
  "reconstructPath cf current = map_option rev (reconstructLoop cf [current] current)"

text \<open>One pass of the body of the \<^verbatim>\<open>for\<close> loop over the neighbours of \<open>current\<close>.\<close>

definition relaxNeighbor ::
  "(TileId, PathfindingNode) js_map \<Rightarrow> TileId \<Rightarrow> TileId set \<Rightarrow> TileId \<Rightarrow>
   TileId \<Rightarrow> SearchState \<Rightarrow> SearchState" where
  "relaxNeighbor nodesById destinationTileId blockedTileIds current neighborId st =
     (if neighborId \<in> closedSet st \<or> neighborId \<in> blockedTileIds then st
      else case map_of nodesById neighborId of
             None \<Rightarrow> st
           | Some neighborNode \<Rightarrow>
               if \<not> node_walkable neighborNode then st
               else
                 let tentativeScore = scoreOrInfinity (gScore st) current + 1 in
                 if tentativeScore \<ge> scoreOrInfinity (gScore st) neighborId then st
                 else
                   st\<lparr> cameFrom := (cameFrom st)(neighborId \<mapsto> current),
                       gScore := (gScore st)(neighborId \<mapsto> tentativeScore),
                       heap := heapPush (heap st) neighborId
                         (tentativeScore +
                            heuristicDistance nodesById neighborId destinationTileId) \<rparr>)"

text \<open>
  The state after one pass of the \<^verbatim>\<open>while\<close> loop that neither returns nor is cut short by
  \<^verbatim>\<open>continue\<close>: \<open>current\<close> is closed and its neighbours are relaxed in order.
\<close>

definition expandCurrent ::
  "(TileId, PathfindingNode) js_map \<Rightarrow> TileId \<Rightarrow> TileId set \<Rightarrow> TileId \<Rightarrow>
   SearchState \<Rightarrow> SearchState" where
  "expandCurrent nodesById destinationTileId blockedTileIds current st =
     (let st = st\<lparr> closedSet := insert current (closedSet st) \<rparr> in
      case map_of nodesById current of
        None \<Rightarrow> st
      | Some currentNode \<Rightarrow>
          fold (relaxNeighbor nodesById destinationTileId blockedTileIds current)
               (neighbors currentNode) st)"

subsection \<open>The heap operations keep the entries\<close>

lemma length_swapEntries [simp]: "length (swapEntries h i j) = length h"
  by (simp add: swapEntries_def)

lemma mset_swapEntries:
  "i < length h \<Longrightarrow> j < length h \<Longrightarrow> mset (swapEntries h i j) = mset h"
  unfolding swapEntries_def by (rule mset_swap)

lemma length_bubbleUp [simp]: "length (bubbleUp h index) = length h"
proof (induction h index rule: bubbleUp.induct)
  case (1 h index)
  show ?case
    using 1 by (subst bubbleUp.simps) (simp add: Let_def)
qed

lemma mset_bubbleUp: "index < length h \<Longrightarrow> mset (bubbleUp h index) = mset h"
proof (induction h index rule: bubbleUp.induct)
  case (1 h index)
  show ?case
  proof (cases "index > 0 \<and> \<not> heap_score (h ! ((index - 1) div 2)) \<le> heap_score (h ! index)")
    case True
    have p: "(index - 1) div 2 < length h" using "1.prems" by linarith
    have "mset (bubbleUp (swapEntries h ((index - 1) div 2) index) ((index - 1) div 2)) =
          mset (swapEntries h ((index - 1) div 2) index)"
      using "1.IH"[of "(index - 1) div 2"] True p by simp
    also have "\<dots> = mset h" using p "1.prems" by (simp add: mset_swapEntries)
    finally show ?thesis using True by (subst bubbleUp.simps) (simp add: Let_def)
  next
    case False
    then show ?thesis by (subst bubbleUp.simps) (auto simp: Let_def)
  qed
qed

definition sinkChoice :: "HeapEntry list \<Rightarrow> nat \<Rightarrow> nat" where
  "sinkChoice h index =
     (let len = length h;
          left = 2 * index + 1;
          right = 2 * index + 2;
          smallest = (if left < len \<and> heap_score (h ! left) < heap_score (h ! index)
                      then left else index);
          smallest = (if right < len \<and> heap_score (h ! right) < heap_score (h ! smallest)
                      then right else smallest)
      in smallest)"

lemma sinkDown_unfold:
  "sinkDown h index =
     (if sinkChoice h index = index then h
      else sinkDown (swapEntries h (sinkChoice h index) index) (sinkChoice h index))"
  by (subst sinkDown.simps) (simp add: sinkChoice_def Let_def)

lemma sinkChoice_range:
  "sinkChoice h index \<noteq> index \<Longrightarrow>
   index < sinkChoice h index \<and> sinkChoice h index < length h \<and>
   (sinkChoice h index = 2 * index + 1 \<or> sinkChoice h index = 2 * index + 2)"
  by (auto simp: sinkChoice_def Let_def split: if_splits)

lemma sinkDown_induct [case_names step]:
  assumes "\<And>h index. (sinkChoice h index \<noteq> index \<Longrightarrow>
              P (swapEntries h (sinkChoice h index) index) (sinkChoice h index)) \<Longrightarrow> P h index"
  shows "P h index"
proof (induction "length h - index" arbitrary: h index rule: less_induct)
  case less
  show ?case
  proof (rule assms)
    assume ne: "sinkChoice h index \<noteq> index"
    from sinkChoice_range[OF ne]
    have "length (swapEntries h (sinkChoice h index) index) - sinkChoice h index < length h - index"
      by simp linarith
    from less[OF this] show "P (swapEntries h (sinkChoice h index) index) (sinkChoice h index)" .
  qed
qed

lemma length_sinkDown [simp]: "length (sinkDown h index) = length h"
proof (induction h index rule: sinkDown_induct)
  case (step h index)
  then show ?case by (subst sinkDown_unfold) simp
qed

lemma mset_sinkDown: "mset (sinkDown h index) = mset h"
proof (induction h index rule: sinkDown_induct)
  case (step h index)
  show ?case
  proof (cases "sinkChoice h index = index")
    case True
    then show ?thesis by (subst sinkDown_unfold) simp
  next
    case False
    from sinkChoice_range[OF False] have "index < length h" "sinkChoice h index < length h"
      by linarith+
    then have "mset (swapEntries h (sinkChoice h index) index) = mset h"
      by (simp add: mset_swapEntries)
    with step[OF False] False show ?thesis by (subst sinkDown_unfold) simp
  qed
qed

lemma mset_heapPush:
  "mset (heapPush h i s) = add_mset \<lparr> heap_id = i, heap_score = s \<rparr> (mset h)"
  by (simp add: heapPush_def Let_def mset_bubbleUp)

lemma length_heapPush [simp]: "length (heapPush h i s) = Suc (length h)"
  by (simp add: heapPush_def Let_def)

lemma heapPop_nonempty:
  assumes "h \<noteq> []"
  shows "\<exists>rest. heapPop h = (Some (heap_id (h ! 0)), rest) \<and>
                mset h = add_mset (h ! 0) (mset rest) \<and> length rest = length h - 1"
proof (cases "butlast h = []")
  case True
  then obtain x where hx: "h = [x]" using assms by (cases h) (auto split: if_splits)
  show ?thesis unfolding hx by (simp add: heapPop_def Let_def)
next
  case False
  define b where "b = butlast h"
  have h: "h = b @ [last h]" using assms by (simp add: b_def)
  have b0: "b \<noteq> []" using False by (simp add: b_def)
  then obtain x bs where b: "b = x # bs" by (cases b) auto
  have h0: "h ! 0 = x" using h b by (metis append_Cons nth_Cons_0)
  have pop: "heapPop h = (Some (heap_id (h ! 0)), sinkDown (b[0 := last h]) 0)"
    using assms b0 by (simp add: heapPop_def Let_def b_def)
  have "mset (sinkDown (b[0 := last h]) 0) = mset (b[0 := last h])" by (rule mset_sinkDown)
  also have "\<dots> = add_mset (last h) (mset bs)" using b by simp
  finally have "add_mset (h ! 0) (mset (sinkDown (b[0 := last h]) 0)) = mset h"
    using h b h0 by (metis add_mset_commute mset.simps(2) mset_append union_mset_add_mset_right
        add.right_neutral mset.simps(1))
  moreover have "length (sinkDown (b[0 := last h]) 0) = length h - 1" by (simp add: b_def)
  ultimately show ?thesis using pop by auto
qed

lemma heapPop_empty: "heapPop [] = (None, [])"
  by (simp add: heapPop_def)

subsection \<open>What one expansion does to the closed set and to the ids in the heap\<close>

definition heapIds :: "HeapEntry list \<Rightarrow> TileId set" where
  "heapIds h = heap_id ` set h"

lemma heapIds_heapPush: "heapIds (heapPush h i s) = insert i (heapIds h)"
proof -
  have "set (heapPush h i s) = set_mset (mset (heapPush h i s))" by simp
  also have "\<dots> = insert \<lparr> heap_id = i, heap_score = s \<rparr> (set h)"
    unfolding mset_heapPush by simp
  finally show ?thesis by (simp add: heapIds_def)
qed

lemma heapPop_ids:
  assumes "heapPop h = (Some current, rest)"
  shows "current \<in> heapIds h" "heapIds rest \<subseteq> heapIds h" "length rest < length h"
proof -
  have ne: "h \<noteq> []" using assms by (auto simp: heapPop_def)
  from heapPop_nonempty[OF ne] assms
  have c: "current = heap_id (h ! 0)" and m: "mset h = add_mset (h ! 0) (mset rest)"
    and l: "length rest = length h - 1" by auto
  show "current \<in> heapIds h" using c ne by (simp add: heapIds_def)
  have "set h = set_mset (add_mset (h ! 0) (mset rest))"
    using m by (metis set_mset_mset)
  then have "set rest \<subseteq> set h" by auto
  then show "heapIds rest \<subseteq> heapIds h" by (auto simp: heapIds_def)
  show "length rest < length h" using l ne by (cases h) auto
qed

lemma relaxNeighbor_closedSet [simp]:
  "closedSet (relaxNeighbor nodesById dest blocked current n st) = closedSet st"
  by (simp add: relaxNeighbor_def Let_def split: option.splits)

lemma relaxNeighbor_heapIds:
  "heapIds (heap (relaxNeighbor nodesById dest blocked current n st))
     \<subseteq> heapIds (heap st) \<union> fst ` set nodesById"
  by (auto simp: relaxNeighbor_def Let_def heapIds_heapPush split: option.splits
      dest: map_of_SomeD intro: rev_image_eqI)

lemma fold_relaxNeighbor_closedSet [simp]:
  "closedSet (fold (relaxNeighbor nodesById dest blocked current) ns st) = closedSet st"
  by (induction ns arbitrary: st) simp_all

lemma fold_relaxNeighbor_heapIds:
  "heapIds (heap (fold (relaxNeighbor nodesById dest blocked current) ns st))
     \<subseteq> heapIds (heap st) \<union> fst ` set nodesById"
proof (induction ns arbitrary: st)
  case Nil
  then show ?case by simp
next
  case (Cons n ns)
  have "heapIds (heap (fold (relaxNeighbor nodesById dest blocked current) ns
                         (relaxNeighbor nodesById dest blocked current n st)))
        \<subseteq> heapIds (heap (relaxNeighbor nodesById dest blocked current n st)) \<union> fst ` set nodesById"
    by (rule Cons.IH)
  also have "\<dots> \<subseteq> heapIds (heap st) \<union> fst ` set nodesById"
    using relaxNeighbor_heapIds[of nodesById dest blocked current n st] by blast
  finally show ?case by simp
qed

lemma expandCurrent_closedSet [simp]:
  "closedSet (expandCurrent nodesById dest blocked current st) = insert current (closedSet st)"
  by (simp add: expandCurrent_def Let_def split: option.splits)

lemma expandCurrent_heapIds:
  "heapIds (heap (expandCurrent nodesById dest blocked current st))
     \<subseteq> heapIds (heap st) \<union> fst ` set nodesById"
  using fold_relaxNeighbor_heapIds[of nodesById dest blocked current _
      "st\<lparr> closedSet := insert current (closedSet st) \<rparr>"]
  by (auto simp: expandCurrent_def Let_def split: option.splits)

text \<open>
  The \<^verbatim>\<open>while\<close> loop of \<^verbatim>\<open>findShortestPath\<close>.  The result is an option of the source's
  \<^verbatim>\<open>readonly TileId[] | undefined\<close>: \<open>Some None\<close> is "returns undefined", \<open>Some (Some p)\<close>
  is "returns the path p", and \<open>None\<close> arises only when \<^verbatim>\<open>reconstructPath\<close> does not
  return.  \<^verbatim>\<open>!current\<close> holds for the empty string as well as for undefined.
\<close>

definition unsettled :: "(TileId, PathfindingNode) js_map \<Rightarrow> SearchState \<Rightarrow> TileId set" where
  "unsettled nodesById st = (fst ` set nodesById \<union> heapIds (heap st)) - closedSet st"

function searchLoop ::
  "(TileId, PathfindingNode) js_map \<Rightarrow> TileId \<Rightarrow> TileId set \<Rightarrow> SearchState \<Rightarrow>
   TileId list option option" where
  "searchLoop nodesById destinationTileId blockedTileIds st =
     (if length (heap st) > 0 then
        (case heapPop (heap st) of
           (None, h) \<Rightarrow> Some None
         | (Some current, h) \<Rightarrow>
             if current = [] then Some None
             else if current = destinationTileId then
               map_option Some (reconstructPath (cameFrom st) current)
             else if current \<in> closedSet st then
               searchLoop nodesById destinationTileId blockedTileIds (st\<lparr> heap := h \<rparr>)
             else
               searchLoop nodesById destinationTileId blockedTileIds
                 (expandCurrent nodesById destinationTileId blockedTileIds current
                    (st\<lparr> heap := h \<rparr>)))
      else Some None)"
  by pat_completeness auto
termination
proof (relation "measures [\<lambda>(nodesById, d, b, st). card (unsettled nodesById st),
                           \<lambda>(nodesById, d, b, st). length (heap st)]", goal_cases)
  case 1
  show ?case by simp
next
  case (2 nodesById d b st x h current)
  then have pop: "heapPop (heap st) = (Some current, h)" by simp
  have fin: "finite (unsettled nodesById st)" by (simp add: unsettled_def heapIds_def)
  have "unsettled nodesById (st\<lparr> heap := h \<rparr>) \<subseteq> unsettled nodesById st"
    using heapPop_ids(2)[OF pop] by (auto simp: unsettled_def)
  then have "card (unsettled nodesById (st\<lparr> heap := h \<rparr>)) \<le> card (unsettled nodesById st)"
    using fin by (simp add: card_mono)
  then show ?case using heapPop_ids(3)[OF pop] by auto
next
  case (3 nodesById d b st x h current)
  then have pop: "heapPop (heap st) = (Some current, h)" and nc: "current \<notin> closedSet st"
    by simp_all
  let ?st' = "expandCurrent nodesById d b current (st\<lparr> heap := h \<rparr>)"
  have fin: "finite (unsettled nodesById st)" by (simp add: unsettled_def heapIds_def)
  have cur: "current \<in> unsettled nodesById st"
    using heapPop_ids(1)[OF pop] nc by (simp add: unsettled_def)
  have "heapIds (heap ?st') \<subseteq> heapIds h \<union> fst ` set nodesById"
    using expandCurrent_heapIds[of nodesById d b current "st\<lparr> heap := h \<rparr>"] by simp
  then have "unsettled nodesById ?st' \<subseteq> unsettled nodesById st - {current}"
    using heapPop_ids(2)[OF pop] by (auto simp: unsettled_def)
  then have "card (unsettled nodesById ?st') \<le> card (unsettled nodesById st - {current})"
    using fin by (simp add: card_mono)
  also have "\<dots> < card (unsettled nodesById st)"
    using fin cur by (rule card_Diff1_less)
  finally show ?case by simp
qed

declare searchLoop.simps [simp del]

definition findShortestPath ::
  "(TileId, PathfindingNode) js_map \<Rightarrow> TileId \<Rightarrow> TileId \<Rightarrow> TileId set \<Rightarrow>
   TileId list option option" where
  "findShortestPath nodesById startTileId destinationTileId blockedTileIds =
     (let startF = heuristicDistance nodesById startTileId destinationTileId;
          st = \<lparr> closedSet = {}, cameFrom = Map.empty,
                 gScore = [startTileId \<mapsto> 0],
                 heap = heapPush [] startTileId startF \<rparr>
      in searchLoop nodesById destinationTileId blockedTileIds st)"

subsection \<open>The service and its route cache\<close>

record PathfindingRequest =
  startTileId :: TileId
  destinationTileId :: TileId
  blockedTileIds :: "TileId list option"

datatype UnreachableReason =
  UnknownStart | UnknownDestination | BlockedStart | BlockedDestination | NoRoute

text \<open>
  \<open>Found path fromCache\<close> and \<open>Unreachable reason path\<close>: the two shapes of
  \<^verbatim>\<open>PathfindingResult\<close>.
\<close>

datatype PathfindingResult =
  Found "TileId list" bool
  | Unreachable UnreachableReason "TileId list"

text \<open>
  The state behind the closure \<^verbatim>\<open>createPathfindingService\<close> returns.  \<^verbatim>\<open>maxCachedRoutes\<close> is
  an integer here; the source replaces anything that is not a positive integer by 1.
\<close>

record PathfindingService =
  normalizedMaxCachedRoutes :: nat
  svc_nodesById :: "(TileId, PathfindingNode) js_map"
  svc_routeCache :: "(string, TileId list) js_map"

definition createPathfindingService :: "Tile list \<Rightarrow> int \<Rightarrow> PathfindingService" where
  "createPathfindingService tiles maxCachedRoutes =
     \<lparr> normalizedMaxCachedRoutes = (if maxCachedRoutes > 0 then nat maxCachedRoutes else 1),
       svc_nodesById = createNodesById tiles,
       svc_routeCache = [] \<rparr>"

text \<open>
  \<^verbatim>\<open>new Set(request.blockedTileIds ?? [])\<close>: the ids in order of first occurrence.
\<close>

definition blockedSetOf :: "TileId list option \<Rightarrow> TileId list" where
  "blockedSetOf bs =
     fold (\<lambda>b acc. if b \<in> set acc then acc else acc @ [b])
          (case bs of None \<Rightarrow> [] | Some ids \<Rightarrow> ids) []"

fun joinWithComma :: "string list \<Rightarrow> string" where
  "joinWithComma [] = []"
| "joinWithComma [a] = a"
| "joinWithComma (a # b # rest) = a @ '','' @ joinWithComma (b # rest)"

text \<open>
  \<^verbatim>\<open>toCacheKey\<close> sorts the blocked ids with \<^verbatim>\<open>localeCompare\<close>, a total order on strings that
  depends on the host's locale; the order on strings by character code stands for it.
  The ids of a set are distinct, so the sorted sequence does not depend on the sorting
  algorithm.
\<close>

definition toCacheKey :: "TileId \<Rightarrow> TileId \<Rightarrow> TileId list \<Rightarrow> string" where
  "toCacheKey startId destinationId blocked =
     (let blockedPart = (if length blocked = 0 then [] else joinWithComma (sort blocked))
      in startId @ ''->'' @ destinationId @ ''|'' @ blockedPart)"

text \<open>
  \<^verbatim>\<open>findPath\<close> returns the result and the service with its cache as the call leaves it.
  The outer option is \<open>None\<close> only when the search does not return.
\<close>

definition findPath ::
  "PathfindingService \<Rightarrow> PathfindingRequest \<Rightarrow> (PathfindingResult \<times> PathfindingService) option" where
  "findPath svc request =
     (case map_of (svc_nodesById svc) (startTileId request) of
        None \<Rightarrow> Some (Unreachable UnknownStart [], svc)
      | Some startNode \<Rightarrow>
     (case map_of (svc_nodesById svc) (destinationTileId request) of
        None \<Rightarrow> Some (Unreachable UnknownDestination [], svc)
      | Some destinationNode \<Rightarrow>
          let blocked = blockedSetOf (blockedTileIds request);
              startBlocked = (node_id startNode \<in> set blocked \<or> \<not> node_walkable startNode)
          in
          if startBlocked then Some (Unreachable BlockedStart [], svc)
          else
            let destinationBlocked =
                  (node_id destinationNode \<in> set blocked \<or> \<not> node_walkable destinationNode)
            in
            if destinationBlocked then Some (Unreachable BlockedDestination [], svc)
            else if node_id startNode = node_id destinationNode then
              Some (Found [node_id startNode] False, svc)
            else
              let cacheKey = toCacheKey (node_id startNode) (node_id destinationNode) blocked in
              (case map_of (svc_routeCache svc) cacheKey of
                 Some cachedPath \<Rightarrow>
                   Some (Found cachedPath True,
                         svc\<lparr> svc_routeCache :=
                                AList.update cacheKey cachedPath
                                  (AList.delete cacheKey (svc_routeCache svc)) \<rparr>)
               | None \<Rightarrow>
                   (case findShortestPath (svc_nodesById svc) (node_id startNode)
                           (node_id destinationNode) (set blocked) of
                      None \<Rightarrow> None
                    | Some None \<Rightarrow> Some (Unreachable NoRoute [], svc)
                    | Some (Some foundPath) \<Rightarrow>
                        let cache = AList.update cacheKey foundPath (svc_routeCache svc);
                            cache =
                              (if length cache > normalizedMaxCachedRoutes svc then
                                 (case cache of
                                    [] \<Rightarrow> cache
                                  | (oldestKey, _) # _ \<Rightarrow>
                                      if oldestKey \<noteq> [] then AList.delete oldestKey cache
                                      else cache)
                               else cache)
                        in Some (Found foundPath False, svc\<lparr> svc_routeCache := cache \<rparr>)))))"

text \<open>
  A client's sequence of calls: each request goes to the service as the previous call left
  it; the results are collected in order.
\<close>

fun findPaths ::
  "PathfindingService \<Rightarrow> PathfindingRequest list \<Rightarrow>
   (PathfindingResult list \<times> PathfindingService) option" where
  "findPaths svc [] = Some ([], svc)"
| "findPaths svc (request # requests) =
     (case findPath svc request of
        None \<Rightarrow> None
      | Some (result, svc') \<Rightarrow>
          (case findPaths svc' requests of
             None \<Rightarrow> None
           | Some (results, svc'') \<Rightarrow> Some (result # results, svc'')))"

section \<open>Snapshot codec (src/simulation/snapshots.ts)\<close>

text \<open>
  \<^verbatim>\<open>parseWorldSnapshot\<close> takes a value of type \<^verbatim>\<open>unknown\<close>.  The values of JavaScript it
  can tell apart: \<^verbatim>\<open>undefined\<close>, \<^verbatim>\<open>null\<close>, booleans, numbers (finite ones as rationals,
  which the doubles are among, and the three that are not finite), strings, arrays, plain
  objects (their own properties in insertion order, keys distinct), and everything else
  (functions, symbols, bigints), of which the code only ever asks the type.
\<close>

datatype nonfinite = NaN | PositiveInfinity | NegativeInfinity

datatype js =
  JUndefined
  | JNull
  | JBool bool
  | JNum rat
  | JNonFinite nonfinite
  | JStr string
  | JArr "js list"
  | JObj "(string \<times> js) list"
  | JOther

datatype js_type = TypeUndefined | TypeObject | TypeBoolean | TypeNumber | TypeString | TypeOther

fun typeOf :: "js \<Rightarrow> js_type" where
  "typeOf JUndefined = TypeUndefined"
| "typeOf JNull = TypeObject"
| "typeOf (JBool _) = TypeBoolean"
| "typeOf (JNum _) = TypeNumber"
| "typeOf (JNonFinite _) = TypeNumber"
| "typeOf (JStr _) = TypeString"
| "typeOf (JArr _) = TypeObject"
| "typeOf (JObj _) = TypeObject"
| "typeOf JOther = TypeOther"

text \<open>\<^verbatim>\<open>!value\<close> is the negation of this.\<close>

fun truthy :: "js \<Rightarrow> bool" where
  "truthy JUndefined = False"
| "truthy JNull = False"
| "truthy (JBool b) = b"
| "truthy (JNum x) = (x \<noteq> 0)"
| "truthy (JNonFinite n) = (n \<noteq> NaN)"
| "truthy (JStr s) = (s \<noteq> [])"
| "truthy (JArr _) = True"
| "truthy (JObj _) = True"
| "truthy JOther = True"

text \<open>
  Reading a named property.  The code reads properties only of values that passed
  \<^verbatim>\<open>typeof value === "object"\<close> and are not \<^verbatim>\<open>null\<close>; of an array it reads none of the names an
  array has, so the read gives \<^verbatim>\<open>undefined\<close> there, as for a missing property of an object.
\<close>

definition getProp :: "js \<Rightarrow> string \<Rightarrow> js" where
  "getProp v k =
     (case v of
        JObj properties \<Rightarrow> (case map_of properties k of Some x \<Rightarrow> x | None \<Rightarrow> JUndefined)
      | _ \<Rightarrow> JUndefined)"

text \<open>The guard \<^verbatim>\<open>!value || typeof value !== "object"\<close> rejects exactly the values that fail this.\<close>

definition isObjectLike :: "js \<Rightarrow> bool" where
  "isObjectLike v \<longleftrightarrow> truthy v \<and> typeOf v = TypeObject"

definition numberIsInteger :: "js \<Rightarrow> bool" where
  "numberIsInteger v = (case v of JNum x \<Rightarrow> of_int \<lfloor>x\<rfloor> = x | _ \<Rightarrow> False)"

definition numberIsFinite :: "js \<Rightarrow> bool" where
  "numberIsFinite v = (case v of JNum _ \<Rightarrow> True | _ \<Rightarrow> False)"

text \<open>The comparisons \<^verbatim>\<open>v >= r\<close> and \<^verbatim>\<open>v <= r\<close> of a number with a numeric literal.\<close>

definition numGe :: "js \<Rightarrow> rat \<Rightarrow> bool" where
  "numGe v r = (case v of JNum x \<Rightarrow> r \<le> x | JNonFinite PositiveInfinity \<Rightarrow> True | _ \<Rightarrow> False)"

definition numLe :: "js \<Rightarrow> rat \<Rightarrow> bool" where
  "numLe v r = (case v of JNum x \<Rightarrow> x \<le> r | JNonFinite NegativeInfinity \<Rightarrow> True | _ \<Rightarrow> False)"

definition numGt :: "js \<Rightarrow> rat \<Rightarrow> bool" where
  "numGt v r = (case v of JNum x \<Rightarrow> r < x | JNonFinite PositiveInfinity \<Rightarrow> True | _ \<Rightarrow> False)"

definition numLt :: "js \<Rightarrow> rat \<Rightarrow> bool" where
  "numLt v r = (case v of JNum x \<Rightarrow> x < r | JNonFinite NegativeInfinity \<Rightarrow> True | _ \<Rightarrow> False)"

text \<open>\<^verbatim>\<open>typeof v === "string" && test(v)\<close> for a test on strings.\<close>

definition stringWhere :: "(string \<Rightarrow> bool) \<Rightarrow> js \<Rightarrow> bool" where
  "stringWhere test v = (case v of JStr s \<Rightarrow> test s | _ \<Rightarrow> False)"

text \<open>\<^verbatim>\<open>Array.isArray(v) && v.every(test)\<close>.\<close>

definition arrayWhereEvery :: "(js \<Rightarrow> bool) \<Rightarrow> js \<Rightarrow> bool" where
  "arrayWhereEvery test v = (case v of JArr xs \<Rightarrow> list_all test xs | _ \<Rightarrow> False)"



definition NPC_STATES :: "string list" where
  "NPC_STATES = [''idle'', ''planning'', ''moving'', ''acting'', ''resting'']"

definition VILLAGER_ACTIONS :: "string list" where
  "VILLAGER_ACTIONS = [''walk'', ''farm'', ''chat'', ''shop'', ''rest'', ''observe'']"

definition MEMORY_SOURCE_TYPES :: "string list" where
  "MEMORY_SOURCE_TYPES = [''self'', ''world'', ''villager'', ''system'']"

definition isNpcState :: "string \<Rightarrow> bool" where
  "isNpcState v \<longleftrightarrow> v \<in> set NPC_STATES"

definition isVillagerActionType :: "string \<Rightarrow> bool" where
  "isVillagerActionType v \<longleftrightarrow> v \<in> set VILLAGER_ACTIONS"

definition isMemorySourceType :: "string \<Rightarrow> bool" where
  "isMemorySourceType v \<longleftrightarrow> v \<in> set MEMORY_SOURCE_TYPES"












text \<open>
  The typed side: the interfaces \<^verbatim>\<open>WorldSnapshot\<close>, \<^verbatim>\<open>PersistedNpcWorldState\<close>,
  \<^verbatim>\<open>VillagerMemoryStore\<close> and those they mention, with integer fields as \<open>int\<close>, optional
  fields as options and the string unions as datatypes, and the JavaScript value each typed
  value is.  An optional field that is absent is a missing property.  The order of the
  properties of an object is not observable by the code; the encoders list them in the order
  of the interface declarations.
\<close>

datatype MemoryType = MemoryObservation | MemoryInteraction | MemoryTask | MemoryEmotion | MemoryGoal

datatype MemorySourceType = SourceSelf | SourceWorld | SourceVillager | SourceSystem

record VillagerMemorySource =
  source_type :: MemorySourceType
  source_actorVillagerId :: "VillagerId option"
  source_eventId :: "string option"

record VillagerMemoryBase =
  memory_id :: string
  memory_villagerId :: VillagerId
  memory_type :: MemoryType
  memory_summary :: string
  memory_source :: VillagerMemorySource
  memory_createdAt :: SimulationTime
  memory_importance :: rat

record ShortTermVillagerMemory = VillagerMemoryBase +
  expiresAfterTicks :: int

record LongTermVillagerMemory = VillagerMemoryBase +
  reinforcementCount :: int

record VillagerMemoryStore =
  store_villagerId :: VillagerId
  shortTerm :: "ShortTermVillagerMemory list"
  longTerm :: "LongTermVillagerMemory list"

record PersistedNpcWorldState =
  npc_villagerId :: VillagerId
  npc_currentTileId :: TileId
  npc_targetTileId :: TileId
  npc_npcState :: NpcState
  npc_memoryStore :: VillagerMemoryStore
  npc_replan :: NpcReplanState



fun memoryTypeName :: "MemoryType \<Rightarrow> string" where
  "memoryTypeName MemoryObservation = ''observation''"
| "memoryTypeName MemoryInteraction = ''interaction''"
| "memoryTypeName MemoryTask = ''task''"
| "memoryTypeName MemoryEmotion = ''emotion''"
| "memoryTypeName MemoryGoal = ''goal''"

fun memorySourceTypeName :: "MemorySourceType \<Rightarrow> string" where
  "memorySourceTypeName SourceSelf = ''self''"
| "memorySourceTypeName SourceWorld = ''world''"
| "memorySourceTypeName SourceVillager = ''villager''"
| "memorySourceTypeName SourceSystem = ''system''"

fun npcStateName :: "NpcState \<Rightarrow> string" where
  "npcStateName Idle = ''idle''"
| "npcStateName Planning = ''planning''"
| "npcStateName Moving = ''moving''"
| "npcStateName Acting = ''acting''"
| "npcStateName Resting = ''resting''"

fun actionName :: "VillagerActionType \<Rightarrow> string" where
  "actionName Walk = ''walk''"
| "actionName Farm = ''farm''"
| "actionName Chat = ''chat''"
| "actionName Shop = ''shop''"
| "actionName Rest = ''rest''"
| "actionName Observe = ''observe''"

text \<open>An optional property: present with its value, or missing.\<close>

definition optionalProp :: "string \<Rightarrow> ('a \<Rightarrow> js) \<Rightarrow> 'a option \<Rightarrow> (string \<times> js) list" where
  "optionalProp k enc x = (case x of None \<Rightarrow> [] | Some y \<Rightarrow> [(k, enc y)])"

definition jsInt :: "int \<Rightarrow> js" where
  "jsInt n = JNum (of_int n)"

definition jsSimulationTime :: "SimulationTime \<Rightarrow> js" where
  "jsSimulationTime t =
     JObj [(''tick'', jsInt (st_tick t)), (''day'', jsInt (st_day t)),
           (''minuteOfDay'', jsInt (minuteOfDay t))]"

definition jsMemorySource :: "VillagerMemorySource \<Rightarrow> js" where
  "jsMemorySource s =
     JObj ([(''type'', JStr (memorySourceTypeName (source_type s)))] @
           optionalProp ''actorVillagerId'' JStr (source_actorVillagerId s) @
           optionalProp ''eventId'' JStr (source_eventId s))"

definition jsMemoryBase :: "'a VillagerMemoryBase_scheme \<Rightarrow> (string \<times> js) list" where
  "jsMemoryBase m =
     [(''id'', JStr (memory_id m)),
      (''villagerId'', JStr (memory_villagerId m)),
      (''type'', JStr (memoryTypeName (memory_type m))),
      (''summary'', JStr (memory_summary m)),
      (''source'', jsMemorySource (memory_source m)),
      (''createdAt'', jsSimulationTime (memory_createdAt m)),
      (''importance'', JNum (memory_importance m))]"

definition jsShortTermMemory :: "ShortTermVillagerMemory \<Rightarrow> js" where
  "jsShortTermMemory m =
     JObj (jsMemoryBase m @
           [(''bucket'', JStr ''short_term''),
            (''expiresAfterTicks'', jsInt (expiresAfterTicks m))])"

definition jsLongTermMemory :: "LongTermVillagerMemory \<Rightarrow> js" where
  "jsLongTermMemory m =
     JObj (jsMemoryBase m @
           [(''bucket'', JStr ''long_term''),
            (''reinforcementCount'', jsInt (reinforcementCount m))])"

definition jsMemoryStore :: "VillagerMemoryStore \<Rightarrow> js" where
  "jsMemoryStore s =
     JObj [(''villagerId'', JStr (store_villagerId s)),
           (''shortTerm'', JArr (map jsShortTermMemory (shortTerm s))),
           (''longTerm'', JArr (map jsLongTermMemory (longTerm s)))]"

definition jsIntent :: "PersistedNpcIntent \<Rightarrow> js" where
  "jsIntent i =
     JObj ([(''action'', JStr (actionName (intent_action i)))] @
           optionalProp ''targetTileId'' JStr (intent_targetTileId i) @
           [(''reasoning'', JStr (intent_reasoning i)),
            (''plannedAtTick'', jsInt (intent_plannedAtTick i))])"

definition jsReplanState :: "NpcReplanState \<Rightarrow> js" where
  "jsReplanState r =
     JObj (optionalProp ''lastPlanTick'' jsInt (lastPlanTick r) @
           optionalProp ''lastPlanSignature'' JStr (lastPlanSignature r) @
           optionalProp ''lastMajorEventTick'' jsInt (lastMajorEventTick r) @
           optionalProp ''intent'' jsIntent (intent r) @
           optionalProp ''intentUpdatedAtTick'' jsInt (intentUpdatedAtTick r))"

definition jsNpc :: "PersistedNpcWorldState \<Rightarrow> js" where
  "jsNpc n =
     JObj [(''villagerId'', JStr (npc_villagerId n)),
           (''currentTileId'', JStr (npc_currentTileId n)),
           (''targetTileId'', JStr (npc_targetTileId n)),
           (''npcState'', JStr (npcStateName (npc_npcState n))),
           (''memoryStore'', jsMemoryStore (npc_memoryStore n)),
           (''replan'', jsReplanState (npc_replan n))]"












chapter \<open>Properties\<close>

section \<open>Movement\<close>

lemma assign_inv:
  "assignVillagerMovementPath c0 p t0 = Inr c \<Longrightarrow> movementInv p (villagerId c0) c"
  by (auto simp: assignVillagerMovementPath_def assertNonNegativeInteger_def movementInv_def
      split: if_splits list.splits)

lemma advance_index:
  assumes "path c \<noteq> []" "pathIndex c \<le> length (path c) - 1" "0 \<le> t"
  shows "\<exists>r. advanceVillagerMovement c t = Inr r \<and>
     int (pathIndex (component r)) =
       (if lastProcessedTick c < t
        then int (pathIndex c) + min (t - lastProcessedTick c) (int (length (path c)) - 1 - int (pathIndex c))
        else int (pathIndex c))"
  using assms
  by (cases "path c") (auto simp: advanceVillagerMovement_def assertNonNegativeInteger_def Let_def min_def)

lemma advance_step:
  assumes "movementInv p v c" "0 \<le> t"
  shows "\<exists>r. advanceVillagerMovement c t = Inr r \<and> movementInv p v (component r) \<and>
     pathIndex c \<le> pathIndex (component r) \<and>
     events r = (if pathIndex c < length p - 1 \<and> pathIndex (component r) = length p - 1
                 then [\<lparr> ev_villagerId = v, ev_tileId = last p,
                         ev_tick = lastProcessedTick c + (int (length p) - 1 - int (pathIndex c)) \<rparr>]
                 else [])"
  using assms
  by (auto simp: advanceVillagerMovement_def assertNonNegativeInteger_def Let_def min_def movementInv_def last_conv_nth)


lemma advance_trace_inv:
  assumes "movementInv p v c" "\<forall>t\<in>set ts. 0 \<le> t"
  shows "\<exists>rs. advanceTrace c ts = Inr rs \<and> length rs = length ts \<and>
     (\<forall>j<length ts.
         path ((c # map component rs) ! j) = p \<and>
         events (rs ! j) =
           (if pathIndex ((c # map component rs) ! j) < length p - 1 \<and>
               pathIndex (component (rs ! j)) = length p - 1
            then [\<lparr> ev_villagerId = v, ev_tileId = last p,
                    ev_tick = lastProcessedTick ((c # map component rs) ! j) +
                       (int (length p) - 1 - int (pathIndex ((c # map component rs) ! j))) \<rparr>]
            else [])) \<and>
     length (concat (map events rs)) =
       (if pathIndex c < length p - 1 \<and> pathIndex (last (c # map component rs)) = length p - 1
        then 1 else 0) \<and>
     pathIndex c \<le> pathIndex (last (c # map component rs)) \<and>
     pathIndex (last (c # map component rs)) \<le> length p - 1"
  using assms
proof (induction ts arbitrary: c)
  case Nil
  then show ?case by (simp add: movementInv_def)
next
  case (Cons t ts)
  from Cons.prems have t0: "0 \<le> t" and ts0: "\<forall>t\<in>set ts. 0 \<le> t" by simp_all
  from advance_step[OF Cons.prems(1) t0] obtain r where
    r: "advanceVillagerMovement c t = Inr r" and inv': "movementInv p v (component r)" and
    mono: "pathIndex c \<le> pathIndex (component r)" and
    ev: "events r = (if pathIndex c < length p - 1 \<and> pathIndex (component r) = length p - 1
                 then [\<lparr> ev_villagerId = v, ev_tileId = last p,
                         ev_tick = lastProcessedTick c + (int (length p) - 1 - int (pathIndex c)) \<rparr>]
                 else [])"
    by blast
  from Cons.IH[OF inv' ts0] obtain rs where
    rs: "advanceTrace (component r) ts = Inr rs" and len: "length rs = length ts" and
    each: "\<forall>j<length ts.
         path ((component r # map component rs) ! j) = p \<and>
         events (rs ! j) =
           (if pathIndex ((component r # map component rs) ! j) < length p - 1 \<and>
               pathIndex (component (rs ! j)) = length p - 1
            then [\<lparr> ev_villagerId = v, ev_tileId = last p,
                    ev_tick = lastProcessedTick ((component r # map component rs) ! j) +
                       (int (length p) - 1 - int (pathIndex ((component r # map component rs) ! j))) \<rparr>]
            else [])" and
    cnt: "length (concat (map events rs)) =
       (if pathIndex (component r) < length p - 1 \<and>
           pathIndex (last (component r # map component rs)) = length p - 1
        then 1 else 0)" and
    mono': "pathIndex (component r) \<le> pathIndex (last (component r # map component rs))" and
    bound: "pathIndex (last (component r # map component rs)) \<le> length p - 1"
    by blast
  have tr: "advanceTrace c (t # ts) = Inr (r # rs)" using r rs by simp
  have pc: "path c = p" using Cons.prems(1) by (simp add: movementInv_def)
  have each': "\<forall>j<length (t # ts).
         path ((c # map component (r # rs)) ! j) = p \<and>
         events ((r # rs) ! j) =
           (if pathIndex ((c # map component (r # rs)) ! j) < length p - 1 \<and>
               pathIndex (component ((r # rs) ! j)) = length p - 1
            then [\<lparr> ev_villagerId = v, ev_tileId = last p,
                    ev_tick = lastProcessedTick ((c # map component (r # rs)) ! j) +
                       (int (length p) - 1 - int (pathIndex ((c # map component (r # rs)) ! j))) \<rparr>]
            else [])"
  proof (intro allI impI)
    fix j assume j: "j < length (t # ts)"
    show "path ((c # map component (r # rs)) ! j) = p \<and>
         events ((r # rs) ! j) =
           (if pathIndex ((c # map component (r # rs)) ! j) < length p - 1 \<and>
               pathIndex (component ((r # rs) ! j)) = length p - 1
            then [\<lparr> ev_villagerId = v, ev_tileId = last p,
                    ev_tick = lastProcessedTick ((c # map component (r # rs)) ! j) +
                       (int (length p) - 1 - int (pathIndex ((c # map component (r # rs)) ! j))) \<rparr>]
            else [])"
    proof (cases j)
      case 0
      then show ?thesis using pc ev by simp
    next
      case (Suc k)
      then have "k < length ts" using j by simp
      with each Suc show ?thesis by simp
    qed
  qed
  have last_eq: "last (c # map component (r # rs)) = last (component r # map component rs)"
    by simp
  have cnt': "length (concat (map events (r # rs))) =
       (if pathIndex c < length p - 1 \<and> pathIndex (last (c # map component (r # rs))) = length p - 1
        then 1 else 0)"
    unfolding last_eq using cnt ev mono mono' bound by (auto split: if_splits)
  have mono'': "pathIndex c \<le> pathIndex (last (c # map component (r # rs)))"
    unfolding last_eq using mono mono' by linarith
  have bound': "pathIndex (last (c # map component (r # rs))) \<le> length p - 1"
    unfolding last_eq using bound .
  show ?case
    using tr len each' cnt' mono'' bound' by (intro exI[of _ "r # rs"]) simp
qed

lemma assign_writes:
  assumes "assignVillagerMovementPath c0 p t0 = Inr a"
  shows "villagerId a = villagerId c0 \<and> currentTileId a = hd p \<and> path a = p \<and>
         pathIndex a = 0 \<and> lastProcessedTick a = t0 \<and>
         arrivedAtTick a = (if length p = 1 then Some t0 else None) \<and> 0 \<le> t0 \<and> p \<noteq> []"
  using assms
  by (auto simp: assignVillagerMovementPath_def assertNonNegativeInteger_def
      split: if_splits list.splits)

lemma assign_run:
  assumes "assignVillagerMovementPath c0 p t0 = Inr a"
  shows "movementRun p (villagerId c0) t0 a"
  using assign_writes[OF assms]
  by (cases p) (auto simp: movementRun_def)

lemma advance_writes:
  assumes "0 \<le> t"
  shows "\<exists>r. advanceVillagerMovement c t = Inr r \<and>
     villagerId (component r) = villagerId c \<and> path (component r) = path c \<and>
     lastProcessedTick (component r) = max (lastProcessedTick c) t \<and>
     pathIndex (component r) =
       (if lastProcessedTick c < t \<and> 2 \<le> length (path c)
        then min (length (path c) - 1) (pathIndex c + nat (t - lastProcessedTick c))
        else pathIndex c) \<and>
     currentTileId (component r) =
       (if lastProcessedTick c < t \<and> 2 \<le> length (path c)
        then path c ! pathIndex (component r) else currentTileId c)"
  using assms
  by (auto simp: advanceVillagerMovement_def assertNonNegativeInteger_def Let_def)

lemma advance_run:
  assumes "movementRun p v t0 c" "0 \<le> t"
  shows "\<exists>r. advanceVillagerMovement c t = Inr r \<and> movementRun p v t0 (component r) \<and>
     lastProcessedTick (component r) = max (lastProcessedTick c) t \<and>
     events r =
       (if lastProcessedTick c < t0 + int (length p) - 1 \<and> t0 + int (length p) - 1 \<le> t
        then [\<lparr> ev_villagerId = v, ev_tileId = last p, ev_tick = t0 + int (length p) - 1 \<rparr>]
        else [])"
proof -
  note i = assms(1)[unfolded movementRun_def]
  show ?thesis
  proof (cases "t \<le> lastProcessedTick c \<or> length p \<le> 1")
    case True
    then have r: "advanceVillagerMovement c t =
        Inr \<lparr> component = c\<lparr> lastProcessedTick := max (lastProcessedTick c) t \<rparr>, events = [] \<rparr>"
      using assms(2) i by (simp add: advanceVillagerMovement_def assertNonNegativeInteger_def)
    have "movementRun p v t0 (c\<lparr> lastProcessedTick := max (lastProcessedTick c) t \<rparr>)"
      using True i by (auto simp: movementRun_def max_def min_def)
    moreover have "\<not> (lastProcessedTick c < t0 + int (length p) - 1 \<and> t0 + int (length p) - 1 \<le> t)"
      using True i by auto
    ultimately show ?thesis using r by simp
  next
    case False
    then have adv: "lastProcessedTick c < t" and n2: "2 \<le> length p" by auto
    let ?n = "min (length p - 1) (pathIndex c + nat (t - lastProcessedTick c))"
    have idx: "?n = min (length p - 1) (nat (t - t0))"
      using i adv by (auto simp: min_def)
    have reached: "(?n = length p - 1) = (t0 + int (length p) - 1 \<le> t)"
      unfolding idx using n2 by (auto simp: min_def)
    have before: "(arrivedAtTick c = None) = (lastProcessedTick c < t0 + int (length p) - 1)"
      using i n2 by (auto simp: min_def)
    have dist: "pathIndex c < length p - 1 \<Longrightarrow>
        lastProcessedTick c + (int (length p) - 1 - int (pathIndex c)) = t0 + int (length p) - 1"
      using i by (auto simp: min_def split: if_splits)
    have lastp: "p ! (length p - 1) = last p" using i by (simp add: last_conv_nth)
    show ?thesis
    proof (cases "?n = length p - 1 \<and> arrivedAtTick c = None")
      case True
      then have lt: "pathIndex c < length p - 1" using i by simp
      have r: "advanceVillagerMovement c t =
        Inr \<lparr> component = c\<lparr> currentTileId := p ! ?n, pathIndex := ?n, lastProcessedTick := t,
                   arrivedAtTick := Some (lastProcessedTick c + (int (length p) - 1 - int (pathIndex c))) \<rparr>,
              events = [\<lparr> ev_villagerId = v, ev_tileId = p ! ?n,
                   ev_tick = lastProcessedTick c + (int (length p) - 1 - int (pathIndex c)) \<rparr>] \<rparr>"
        using assms(2) i False True
        by (simp add: advanceVillagerMovement_def assertNonNegativeInteger_def Let_def)
      have run: "movementRun p v t0 (c\<lparr> currentTileId := p ! ?n, pathIndex := ?n, lastProcessedTick := t,
                   arrivedAtTick := Some (lastProcessedTick c + (int (length p) - 1 - int (pathIndex c))) \<rparr>)"
        using i adv True idx by (simp add: movementRun_def)
      show ?thesis
        using r run True reached before dist[OF lt] lastp adv by (simp add: max_def)
    next
      case F2: False
      have r: "advanceVillagerMovement c t =
        Inr \<lparr> component = c\<lparr> currentTileId := p ! ?n, pathIndex := ?n, lastProcessedTick := t,
                   arrivedAtTick := arrivedAtTick c \<rparr>,
              events = [] \<rparr>"
        using assms(2) i False F2
        by (auto simp: advanceVillagerMovement_def assertNonNegativeInteger_def Let_def)
      have le: "?n \<le> length p - 1" by simp
      have mono: "pathIndex c \<le> ?n" using i by (auto simp: min_def)
      have arr: "(arrivedAtTick c = None) = (?n < length p - 1)"
        using F2 i mono le by (cases "arrivedAtTick c = None") auto
      have run: "movementRun p v t0 (c\<lparr> currentTileId := p ! ?n, pathIndex := ?n, lastProcessedTick := t,
                   arrivedAtTick := arrivedAtTick c \<rparr>)"
        using i adv idx arr by (simp add: movementRun_def)
      show ?thesis
        using r run F2 reached before adv by (auto simp: max_def)
    qed
  qed
qed

lemma run_inv: "movementRun p v t0 c \<Longrightarrow> movementInv p v c"
  by (auto simp: movementRun_def movementInv_def)

lemma advance_trace_run:
  assumes "movementRun p v t0 c" "\<forall>t\<in>set ts. 0 \<le> t"
  shows "\<exists>rs. advanceTrace c ts = Inr rs \<and> length rs = length ts \<and>
     (\<forall>j<length ts.
         movementRun p v t0 ((c # map component rs) ! j) \<and>
         advanceVillagerMovement ((c # map component rs) ! j) (ts ! j) = Inr (rs ! j) \<and>
         (lastProcessedTick ((c # map component rs) ! j) < t0 + int (length p) - 1 \<longleftrightarrow>
            lastProcessedTick c < t0 + int (length p) - 1 \<and>
            (\<forall>i<j. ts ! i < t0 + int (length p) - 1))) \<and>
     length (concat (map events rs)) =
       (if lastProcessedTick c < t0 + int (length p) - 1 \<and>
           (\<exists>j<length ts. t0 + int (length p) - 1 \<le> ts ! j)
        then 1 else 0)"
  using assms
proof (induction ts arbitrary: c)
  case Nil
  then show ?case by simp
next
  case (Cons t ts)
  let ?T = "t0 + int (length p) - 1"
  from Cons.prems have t0: "0 \<le> t" and ts0: "\<forall>t\<in>set ts. 0 \<le> t" by simp_all
  from advance_run[OF Cons.prems(1) t0] obtain r where
    r: "advanceVillagerMovement c t = Inr r" and run': "movementRun p v t0 (component r)" and
    lpt: "lastProcessedTick (component r) = max (lastProcessedTick c) t" and
    ev: "events r =
       (if lastProcessedTick c < ?T \<and> ?T \<le> t
        then [\<lparr> ev_villagerId = v, ev_tileId = last p, ev_tick = ?T \<rparr>]
        else [])"
    by blast
  from Cons.IH[OF run' ts0] obtain rs where
    rs: "advanceTrace (component r) ts = Inr rs" and len: "length rs = length ts" and
    each: "\<forall>j<length ts.
         movementRun p v t0 ((component r # map component rs) ! j) \<and>
         advanceVillagerMovement ((component r # map component rs) ! j) (ts ! j) = Inr (rs ! j) \<and>
         (lastProcessedTick ((component r # map component rs) ! j) < ?T \<longleftrightarrow>
            lastProcessedTick (component r) < ?T \<and> (\<forall>i<j. ts ! i < ?T))" and
    cnt: "length (concat (map events rs)) =
       (if lastProcessedTick (component r) < ?T \<and> (\<exists>j<length ts. ?T \<le> ts ! j)
        then 1 else 0)"
    by blast
  have tr: "advanceTrace c (t # ts) = Inr (r # rs)" using r rs by simp
  have lt: "(lastProcessedTick (component r) < ?T) = (lastProcessedTick c < ?T \<and> t < ?T)"
    unfolding lpt by auto
  have all_suc: "\<And>k. (\<forall>i<Suc k. (t # ts) ! i < ?T) = (t < ?T \<and> (\<forall>i<k. ts ! i < ?T))"
    by (auto simp: less_Suc_eq_0_disj)
  have ex_suc: "(\<exists>j<length (t # ts). ?T \<le> (t # ts) ! j) = (?T \<le> t \<or> (\<exists>j<length ts. ?T \<le> ts ! j))"
    by (auto simp: less_Suc_eq_0_disj)
  have each': "\<forall>j<length (t # ts).
         movementRun p v t0 ((c # map component (r # rs)) ! j) \<and>
         advanceVillagerMovement ((c # map component (r # rs)) ! j) ((t # ts) ! j) = Inr ((r # rs) ! j) \<and>
         (lastProcessedTick ((c # map component (r # rs)) ! j) < ?T \<longleftrightarrow>
            lastProcessedTick c < ?T \<and> (\<forall>i<j. (t # ts) ! i < ?T))"
  proof (intro allI impI)
    fix j assume j: "j < length (t # ts)"
    show "movementRun p v t0 ((c # map component (r # rs)) ! j) \<and>
         advanceVillagerMovement ((c # map component (r # rs)) ! j) ((t # ts) ! j) = Inr ((r # rs) ! j) \<and>
         (lastProcessedTick ((c # map component (r # rs)) ! j) < ?T \<longleftrightarrow>
            lastProcessedTick c < ?T \<and> (\<forall>i<j. (t # ts) ! i < ?T))"
    proof (cases j)
      case 0
      then show ?thesis using Cons.prems(1) r by simp
    next
      case (Suc k)
      then have k: "k < length ts" using j by simp
      from each[rule_format, OF k] Suc show ?thesis
        unfolding Suc all_suc lt by auto
    qed
  qed
  have cnt': "length (concat (map events (r # rs))) =
       (if lastProcessedTick c < ?T \<and> (\<exists>j<length (t # ts). ?T \<le> (t # ts) ! j)
        then 1 else 0)"
    unfolding ex_suc using cnt ev lt by auto
  show ?case
    using tr len each' cnt' by (intro exI[of _ "r # rs"]) simp
qed

text \<open>
  Claim C2.  First conjunct: for a component whose path has \<open>n \<ge> 1\<close> tiles and whose index
  \<open>i\<close> lies inside it, advancing from the last-processed tick \<open>t0\<close> to \<open>t0 + k\<close> with
  \<open>k \<ge> 1\<close> returns normally, moves the index to \<open>i + min k (n - 1 - i)\<close>, sets the
  last-processed tick to \<open>t0 + k\<close>, keeps the villager and the path, and (when the path has
  at least two tiles) sets the current tile to the tile of the path at the new index.
  Second conjunct: \<^verbatim>\<open>assignVillagerMovementPath\<close> at tick \<open>t0\<close> returns the component at index 0
  of the path, on its first tile, with last-processed tick \<open>t0\<close>.  After it, any sequence of
  advance calls with valid ticks returns normally, and for every call of the sequence: the
  last-processed tick becomes the maximum of its old value and the call's tick; the index is
  the number of ticks processed since \<open>t0\<close>, clamped to the path end, and the current tile
  is the tile at that index; the call emits an event exactly when it takes the index from
  below the path end to the path end, that event names the villager and the last tile and
  carries the tick "last-processed tick before the call plus the distance that remained".
  In terms of the ticks alone: the event is emitted by the first call whose tick is at least
  \<open>t0 + n - 1\<close>, for a path of \<open>n \<ge> 2\<close> tiles, and carries the tick \<open>t0 + n - 1\<close>.  Over the
  whole sequence the number of events is 1 if the path has at least two tiles and its end
  has been reached (some call has a tick of at least \<open>t0 + n - 1\<close>), and 0 otherwise, so never
  two.
\<close>

theorem movement_advance_min_and_single_arrival:
  "(path c \<noteq> [] \<and> pathIndex c \<le> length (path c) - 1 \<and> 0 \<le> lastProcessedTick c \<and> 1 \<le> k \<longrightarrow>
      (\<exists>r. advanceVillagerMovement c (lastProcessedTick c + k) = Inr r \<and>
           int (pathIndex (component r)) =
             int (pathIndex c) + min k (int (length (path c)) - 1 - int (pathIndex c)) \<and>
           lastProcessedTick (component r) = lastProcessedTick c + k \<and>
           villagerId (component r) = villagerId c \<and>
           path (component r) = path c \<and>
           currentTileId (component r) =
             (if 2 \<le> length (path c) then path c ! pathIndex (component r)
              else currentTileId c)))
   \<and>
   (assignVillagerMovementPath c0 p t0 = Inr a \<and> (\<forall>t\<in>set ts. 0 \<le> t) \<longrightarrow>
      villagerId a = villagerId c0 \<and> currentTileId a = hd p \<and> path a = p \<and>
      pathIndex a = 0 \<and> lastProcessedTick a = t0 \<and>
      (\<exists>rs. advanceTrace a ts = Inr rs \<and> length rs = length ts \<and>
         (\<forall>j<length ts.
            advanceVillagerMovement ((a # map component rs) ! j) (ts ! j) = Inr (rs ! j) \<and>
            villagerId (component (rs ! j)) = villagerId c0 \<and>
            path (component (rs ! j)) = p \<and>
            lastProcessedTick (component (rs ! j)) =
              max (lastProcessedTick ((a # map component rs) ! j)) (ts ! j) \<and>
            pathIndex (component (rs ! j)) =
              min (length p - 1) (nat (lastProcessedTick (component (rs ! j)) - t0)) \<and>
            currentTileId (component (rs ! j)) = p ! pathIndex (component (rs ! j)) \<and>
            events (rs ! j) =
              (if pathIndex ((a # map component rs) ! j) < length p - 1 \<and>
                  pathIndex (component (rs ! j)) = length p - 1
               then [\<lparr> ev_villagerId = villagerId c0, ev_tileId = last p,
                       ev_tick = lastProcessedTick ((a # map component rs) ! j) +
                         (int (length p) - 1 - int (pathIndex ((a # map component rs) ! j))) \<rparr>]
               else []) \<and>
            events (rs ! j) =
              (if 2 \<le> length p \<and> (\<forall>i<j. ts ! i < t0 + int (length p) - 1) \<and>
                  t0 + int (length p) - 1 \<le> ts ! j
               then [\<lparr> ev_villagerId = villagerId c0, ev_tileId = last p,
                       ev_tick = t0 + int (length p) - 1 \<rparr>]
               else [])) \<and>
         length (concat (map events rs)) =
           (if 2 \<le> length p \<and> pathIndex (last (a # map component rs)) = length p - 1
            then 1 else 0) \<and>
         length (concat (map events rs)) =
           (if 2 \<le> length p \<and> (\<exists>j<length ts. t0 + int (length p) - 1 \<le> ts ! j)
            then 1 else 0)))"
proof (intro conjI impI)
  assume h: "path c \<noteq> [] \<and> pathIndex c \<le> length (path c) - 1 \<and> 0 \<le> lastProcessedTick c \<and> 1 \<le> k"
  then have nn: "0 \<le> lastProcessedTick c + k" by linarith
  from advance_index[OF _ _ nn, of c] h obtain r where
    r: "advanceVillagerMovement c (lastProcessedTick c + k) = Inr r" and
    ix: "int (pathIndex (component r)) =
             int (pathIndex c) + min k (int (length (path c)) - 1 - int (pathIndex c))"
    by auto
  from advance_writes[OF nn, of c] r have
    w: "villagerId (component r) = villagerId c" "path (component r) = path c"
       "lastProcessedTick (component r) = max (lastProcessedTick c) (lastProcessedTick c + k)"
       "currentTileId (component r) =
          (if lastProcessedTick c < lastProcessedTick c + k \<and> 2 \<le> length (path c)
           then path c ! pathIndex (component r) else currentTileId c)"
    by auto
  from w h have w3: "lastProcessedTick (component r) = lastProcessedTick c + k"
    and w4: "currentTileId (component r) =
          (if 2 \<le> length (path c) then path c ! pathIndex (component r) else currentTileId c)"
    by auto
  show "\<exists>r. advanceVillagerMovement c (lastProcessedTick c + k) = Inr r \<and>
           int (pathIndex (component r)) =
             int (pathIndex c) + min k (int (length (path c)) - 1 - int (pathIndex c)) \<and>
           lastProcessedTick (component r) = lastProcessedTick c + k \<and>
           villagerId (component r) = villagerId c \<and>
           path (component r) = path c \<and>
           currentTileId (component r) =
             (if 2 \<le> length (path c) then path c ! pathIndex (component r)
              else currentTileId c)"
    using r ix w3 w(1,2) w4 by (intro exI[of _ r] conjI)
next
  assume h: "assignVillagerMovementPath c0 p t0 = Inr a \<and> (\<forall>t\<in>set ts. 0 \<le> t)"
  then have asg: "assignVillagerMovementPath c0 p t0 = Inr a" and ts0: "\<forall>t\<in>set ts. 0 \<le> t"
    by simp_all
  let ?T = "t0 + int (length p) - 1"
  note aw = assign_writes[OF asg]
  have run: "movementRun p (villagerId c0) t0 a" by (rule assign_run[OF asg])
  have inv: "movementInv p (villagerId c0) a" by (rule assign_inv[OF asg])
  have startT: "(lastProcessedTick a < ?T) = (2 \<le> length p)" using aw by auto
  have eq: "(pathIndex a < length p - 1) = (2 \<le> length p)" using aw by auto
  from advance_trace_run[OF run ts0] obtain rs where
    1: "advanceTrace a ts = Inr rs" and 2: "length rs = length ts" and
    3: "\<forall>j<length ts.
         movementRun p (villagerId c0) t0 ((a # map component rs) ! j) \<and>
         advanceVillagerMovement ((a # map component rs) ! j) (ts ! j) = Inr (rs ! j) \<and>
         (lastProcessedTick ((a # map component rs) ! j) < ?T \<longleftrightarrow>
            lastProcessedTick a < ?T \<and> (\<forall>i<j. ts ! i < ?T))" and
    4: "length (concat (map events rs)) =
       (if lastProcessedTick a < ?T \<and> (\<exists>j<length ts. ?T \<le> ts ! j) then 1 else 0)"
    by blast
  from advance_trace_inv[OF inv ts0] 1 have
    5: "length (concat (map events rs)) =
       (if pathIndex a < length p - 1 \<and> pathIndex (last (a # map component rs)) = length p - 1
        then 1 else 0)"
    by auto
  have each: "\<forall>j<length ts.
            advanceVillagerMovement ((a # map component rs) ! j) (ts ! j) = Inr (rs ! j) \<and>
            villagerId (component (rs ! j)) = villagerId c0 \<and>
            path (component (rs ! j)) = p \<and>
            lastProcessedTick (component (rs ! j)) =
              max (lastProcessedTick ((a # map component rs) ! j)) (ts ! j) \<and>
            pathIndex (component (rs ! j)) =
              min (length p - 1) (nat (lastProcessedTick (component (rs ! j)) - t0)) \<and>
            currentTileId (component (rs ! j)) = p ! pathIndex (component (rs ! j)) \<and>
            events (rs ! j) =
              (if pathIndex ((a # map component rs) ! j) < length p - 1 \<and>
                  pathIndex (component (rs ! j)) = length p - 1
               then [\<lparr> ev_villagerId = villagerId c0, ev_tileId = last p,
                       ev_tick = lastProcessedTick ((a # map component rs) ! j) +
                         (int (length p) - 1 - int (pathIndex ((a # map component rs) ! j))) \<rparr>]
               else []) \<and>
            events (rs ! j) =
              (if 2 \<le> length p \<and> (\<forall>i<j. ts ! i < ?T) \<and> ?T \<le> ts ! j
               then [\<lparr> ev_villagerId = villagerId c0, ev_tileId = last p, ev_tick = ?T \<rparr>]
               else [])"
  proof (intro allI impI)
    fix j assume j: "j < length ts"
    let ?b = "(a # map component rs) ! j"
    from 3 j have brun: "movementRun p (villagerId c0) t0 ?b"
      and call: "advanceVillagerMovement ?b (ts ! j) = Inr (rs ! j)"
      and bT: "(lastProcessedTick ?b < ?T) = (lastProcessedTick a < ?T \<and> (\<forall>i<j. ts ! i < ?T))"
      by blast+
    have tj: "0 \<le> ts ! j" using ts0 j by simp
    from advance_run[OF brun tj] call have
      arun: "movementRun p (villagerId c0) t0 (component (rs ! j))" and
      lpt: "lastProcessedTick (component (rs ! j)) = max (lastProcessedTick ?b) (ts ! j)" and
      ev2: "events (rs ! j) =
       (if lastProcessedTick ?b < ?T \<and> ?T \<le> ts ! j
        then [\<lparr> ev_villagerId = villagerId c0, ev_tileId = last p, ev_tick = ?T \<rparr>]
        else [])"
      by auto
    from advance_step[OF run_inv[OF brun] tj] call have
      ev1: "events (rs ! j) =
              (if pathIndex ?b < length p - 1 \<and> pathIndex (component (rs ! j)) = length p - 1
               then [\<lparr> ev_villagerId = villagerId c0, ev_tileId = last p,
                       ev_tick = lastProcessedTick ?b + (int (length p) - 1 - int (pathIndex ?b)) \<rparr>]
               else [])"
      by auto
    note ar = arun[unfolded movementRun_def]
    have ev3: "events (rs ! j) =
              (if 2 \<le> length p \<and> (\<forall>i<j. ts ! i < ?T) \<and> ?T \<le> ts ! j
               then [\<lparr> ev_villagerId = villagerId c0, ev_tileId = last p, ev_tick = ?T \<rparr>]
               else [])"
      using ev2 unfolding bT startT by simp
    from call ar lpt ev1 ev3
    show "advanceVillagerMovement ?b (ts ! j) = Inr (rs ! j) \<and>
            villagerId (component (rs ! j)) = villagerId c0 \<and>
            path (component (rs ! j)) = p \<and>
            lastProcessedTick (component (rs ! j)) = max (lastProcessedTick ?b) (ts ! j) \<and>
            pathIndex (component (rs ! j)) =
              min (length p - 1) (nat (lastProcessedTick (component (rs ! j)) - t0)) \<and>
            currentTileId (component (rs ! j)) = p ! pathIndex (component (rs ! j)) \<and>
            events (rs ! j) =
              (if pathIndex ?b < length p - 1 \<and> pathIndex (component (rs ! j)) = length p - 1
               then [\<lparr> ev_villagerId = villagerId c0, ev_tileId = last p,
                       ev_tick = lastProcessedTick ?b + (int (length p) - 1 - int (pathIndex ?b)) \<rparr>]
               else []) \<and>
            events (rs ! j) =
              (if 2 \<le> length p \<and> (\<forall>i<j. ts ! i < ?T) \<and> ?T \<le> ts ! j
               then [\<lparr> ev_villagerId = villagerId c0, ev_tileId = last p, ev_tick = ?T \<rparr>]
               else [])"
      by (intro conjI) simp_all
  qed
  have c1: "length (concat (map events rs)) =
           (if 2 \<le> length p \<and> pathIndex (last (a # map component rs)) = length p - 1
            then 1 else 0)"
    using 5 unfolding eq .
  have c2: "length (concat (map events rs)) =
           (if 2 \<le> length p \<and> (\<exists>j<length ts. ?T \<le> ts ! j) then 1 else 0)"
    using 4 unfolding startT .
  have ex: "\<exists>rs. advanceTrace a ts = Inr rs \<and> length rs = length ts \<and>
         (\<forall>j<length ts.
            advanceVillagerMovement ((a # map component rs) ! j) (ts ! j) = Inr (rs ! j) \<and>
            villagerId (component (rs ! j)) = villagerId c0 \<and>
            path (component (rs ! j)) = p \<and>
            lastProcessedTick (component (rs ! j)) =
              max (lastProcessedTick ((a # map component rs) ! j)) (ts ! j) \<and>
            pathIndex (component (rs ! j)) =
              min (length p - 1) (nat (lastProcessedTick (component (rs ! j)) - t0)) \<and>
            currentTileId (component (rs ! j)) = p ! pathIndex (component (rs ! j)) \<and>
            events (rs ! j) =
              (if pathIndex ((a # map component rs) ! j) < length p - 1 \<and>
                  pathIndex (component (rs ! j)) = length p - 1
               then [\<lparr> ev_villagerId = villagerId c0, ev_tileId = last p,
                       ev_tick = lastProcessedTick ((a # map component rs) ! j) +
                         (int (length p) - 1 - int (pathIndex ((a # map component rs) ! j))) \<rparr>]
               else []) \<and>
            events (rs ! j) =
              (if 2 \<le> length p \<and> (\<forall>i<j. ts ! i < ?T) \<and> ?T \<le> ts ! j
               then [\<lparr> ev_villagerId = villagerId c0, ev_tileId = last p, ev_tick = ?T \<rparr>]
               else [])) \<and>
         length (concat (map events rs)) =
           (if 2 \<le> length p \<and> pathIndex (last (a # map component rs)) = length p - 1
            then 1 else 0) \<and>
         length (concat (map events rs)) =
           (if 2 \<le> length p \<and> (\<exists>j<length ts. ?T \<le> ts ! j) then 1 else 0)"
    using 1 2 each c1 c2 by (intro exI[of _ rs] conjI)
  show "villagerId a = villagerId c0" using aw by simp
  show "currentTileId a = hd p" using aw by simp
  show "path a = p" using aw by simp
  show "pathIndex a = 0" using aw by simp
  show "lastProcessedTick a = t0" using aw by simp
  show "\<exists>rs. advanceTrace a ts = Inr rs \<and> length rs = length ts \<and>
         (\<forall>j<length ts.
            advanceVillagerMovement ((a # map component rs) ! j) (ts ! j) = Inr (rs ! j) \<and>
            villagerId (component (rs ! j)) = villagerId c0 \<and>
            path (component (rs ! j)) = p \<and>
            lastProcessedTick (component (rs ! j)) =
              max (lastProcessedTick ((a # map component rs) ! j)) (ts ! j) \<and>
            pathIndex (component (rs ! j)) =
              min (length p - 1) (nat (lastProcessedTick (component (rs ! j)) - t0)) \<and>
            currentTileId (component (rs ! j)) = p ! pathIndex (component (rs ! j)) \<and>
            events (rs ! j) =
              (if pathIndex ((a # map component rs) ! j) < length p - 1 \<and>
                  pathIndex (component (rs ! j)) = length p - 1
               then [\<lparr> ev_villagerId = villagerId c0, ev_tileId = last p,
                       ev_tick = lastProcessedTick ((a # map component rs) ! j) +
                         (int (length p) - 1 - int (pathIndex ((a # map component rs) ! j))) \<rparr>]
               else []) \<and>
            events (rs ! j) =
              (if 2 \<le> length p \<and> (\<forall>i<j. ts ! i < t0 + int (length p) - 1) \<and>
                  t0 + int (length p) - 1 \<le> ts ! j
               then [\<lparr> ev_villagerId = villagerId c0, ev_tileId = last p,
                       ev_tick = t0 + int (length p) - 1 \<rparr>]
               else [])) \<and>
         length (concat (map events rs)) =
           (if 2 \<le> length p \<and> pathIndex (last (a # map component rs)) = length p - 1
            then 1 else 0) \<and>
         length (concat (map events rs)) =
           (if 2 \<le> length p \<and> (\<exists>j<length ts. t0 + int (length p) - 1 \<le> ts ! j)
            then 1 else 0)"
    by (rule ex)
qed

theorem movement_advance_min_and_single_arrival_witness:
  "(\<exists>r. advanceVillagerMovement
          \<lparr> villagerId = ''villager_ava'', currentTileId = ''tile_1_3'',
            path = [''tile_1_3'', ''tile_2_3'', ''tile_3_3''], pathIndex = 0,
            lastProcessedTick = 10, arrivedAtTick = None \<rparr> (10 + 5) = Inr r \<and>
        int (pathIndex (component r)) = 0 + min 5 (3 - 1 - 0) \<and>
        lastProcessedTick (component r) = 15 \<and>
        currentTileId (component r) = ''tile_3_3'')
   \<and> assignVillagerMovementPath
          \<lparr> villagerId = ''villager_ava'', currentTileId = ''tile_1_1'',
            path = [''tile_1_1''], pathIndex = 0,
            lastProcessedTick = 0, arrivedAtTick = Some 0 \<rparr>
          [''tile_1_3'', ''tile_2_3'', ''tile_3_3''] 10 =
        Inr \<lparr> villagerId = ''villager_ava'', currentTileId = ''tile_1_3'',
              path = [''tile_1_3'', ''tile_2_3'', ''tile_3_3''], pathIndex = 0,
              lastProcessedTick = 10, arrivedAtTick = None \<rparr>
   \<and> (\<exists>rs. advanceTrace
          \<lparr> villagerId = ''villager_ava'', currentTileId = ''tile_1_3'',
            path = [''tile_1_3'', ''tile_2_3'', ''tile_3_3''], pathIndex = 0,
            lastProcessedTick = 10, arrivedAtTick = None \<rparr> [11, 11, 15, 20] = Inr rs \<and>
        length rs = length [11, 11, 15, 20::int] \<and>
        map (\<lambda>r. lastProcessedTick (component r)) rs = [11, 11, 15, 20] \<and>
        map (\<lambda>r. pathIndex (component r)) rs = [1, 1, 2, 2] \<and>
        map (\<lambda>r. currentTileId (component r)) rs =
          [''tile_2_3'', ''tile_2_3'', ''tile_3_3'', ''tile_3_3''] \<and>
        map events rs =
          [[], [],
           [\<lparr> ev_villagerId = ''villager_ava'', ev_tileId = ''tile_3_3'', ev_tick = 12 \<rparr>],
           []] \<and>
        length (concat (map events rs)) = 1)"
proof -
  let ?a = "\<lparr> villagerId = ''villager_ava'', currentTileId = ''tile_1_3'',
            path = [''tile_1_3'', ''tile_2_3'', ''tile_3_3''], pathIndex = 0,
            lastProcessedTick = 10, arrivedAtTick = None \<rparr>"
  let ?cz = "\<lparr> villagerId = ''villager_ava'', currentTileId = ''tile_1_1'',
            path = [''tile_1_1''], pathIndex = 0,
            lastProcessedTick = 0, arrivedAtTick = Some 0 \<rparr>"
  let ?p = "[''tile_1_3'', ''tile_2_3'', ''tile_3_3'']"
  let ?ts = "[11, 11, 15, 20::int]"
  have A: "path ?a \<noteq> [] \<and> pathIndex ?a \<le> length (path ?a) - 1 \<and> 0 \<le> lastProcessedTick ?a \<and> (1::int) \<le> 5"
    by simp
  have asg: "assignVillagerMovementPath ?cz ?p 10 = Inr ?a"
    by (simp add: assignVillagerMovementPath_def assertNonNegativeInteger_def)
  have B: "assignVillagerMovementPath ?cz ?p 10 = Inr ?a \<and> (\<forall>t\<in>set ?ts. 0 \<le> t)"
    using asg by simp
  note inst = movement_advance_min_and_single_arrival[of ?a 5 ?cz ?p 10 ?a ?ts]
  from inst[THEN conjunct1, THEN mp, OF A]
  have first: "\<exists>r. advanceVillagerMovement ?a (10 + 5) = Inr r \<and>
        int (pathIndex (component r)) = 0 + min 5 (3 - 1 - 0) \<and>
        lastProcessedTick (component r) = 15 \<and>
        currentTileId (component r) = ''tile_3_3''"
    by (elim exE conjE, intro exI conjI) simp_all
  from inst[THEN conjunct2, THEN mp, OF B]
  obtain rs where tr: "advanceTrace ?a ?ts = Inr rs" and len: "length rs = length ?ts"
    and each: "\<forall>j<length ?ts.
            advanceVillagerMovement ((?a # map component rs) ! j) (?ts ! j) = Inr (rs ! j) \<and>
            villagerId (component (rs ! j)) = villagerId ?cz \<and>
            path (component (rs ! j)) = ?p \<and>
            lastProcessedTick (component (rs ! j)) =
              max (lastProcessedTick ((?a # map component rs) ! j)) (?ts ! j) \<and>
            pathIndex (component (rs ! j)) =
              min (length ?p - 1) (nat (lastProcessedTick (component (rs ! j)) - 10)) \<and>
            currentTileId (component (rs ! j)) = ?p ! pathIndex (component (rs ! j)) \<and>
            events (rs ! j) =
              (if pathIndex ((?a # map component rs) ! j) < length ?p - 1 \<and>
                  pathIndex (component (rs ! j)) = length ?p - 1
               then [\<lparr> ev_villagerId = villagerId ?cz, ev_tileId = last ?p,
                       ev_tick = lastProcessedTick ((?a # map component rs) ! j) +
                         (int (length ?p) - 1 - int (pathIndex ((?a # map component rs) ! j))) \<rparr>]
               else []) \<and>
            events (rs ! j) =
              (if 2 \<le> length ?p \<and> (\<forall>i<j. ?ts ! i < 10 + int (length ?p) - 1) \<and>
                  10 + int (length ?p) - 1 \<le> ?ts ! j
               then [\<lparr> ev_villagerId = villagerId ?cz, ev_tileId = last ?p,
                       ev_tick = 10 + int (length ?p) - 1 \<rparr>]
               else [])"
    and cnt: "length (concat (map events rs)) =
           (if 2 \<le> length ?p \<and> (\<exists>j<length ?ts. 10 + int (length ?p) - 1 \<le> ?ts ! j)
            then 1 else 0)"
    by (elim exE conjE) blast
  from len obtain r0 r1 r2 r3 where rs: "rs = [r0, r1, r2, r3]"
    by (auto simp: length_Suc_conv numeral_eq_Suc)
  have l0: "lastProcessedTick (component r0) = 11"
    and i0: "pathIndex (component r0) = 1" and c0: "currentTileId (component r0) = ''tile_2_3''"
    and e0: "events r0 = []"
    using each[rule_format, of 0] by (simp_all add: rs)
  have l1: "lastProcessedTick (component r1) = 11"
    and i1: "pathIndex (component r1) = 1" and c1: "currentTileId (component r1) = ''tile_2_3''"
    and e1: "events r1 = []"
    using each[rule_format, of 1] l0 by (simp_all add: rs)
  have l2: "lastProcessedTick (component r2) = 15"
    and i2: "pathIndex (component r2) = 2" and c2: "currentTileId (component r2) = ''tile_3_3''"
    and e2: "events r2 =
      [\<lparr> ev_villagerId = ''villager_ava'', ev_tileId = ''tile_3_3'', ev_tick = 12 \<rparr>]"
    using each[rule_format, of 2] l1 i1 by (simp_all add: rs)
  have l3: "lastProcessedTick (component r3) = 20"
    and i3: "pathIndex (component r3) = 2" and c3: "currentTileId (component r3) = ''tile_3_3''"
    and e3: "events r3 = []"
    using each[rule_format, of 3] l2 i2 by (simp_all add: rs)
  have second: "\<exists>rs. advanceTrace ?a ?ts = Inr rs \<and>
        length rs = length ?ts \<and>
        map (\<lambda>r. lastProcessedTick (component r)) rs = [11, 11, 15, 20] \<and>
        map (\<lambda>r. pathIndex (component r)) rs = [1, 1, 2, 2] \<and>
        map (\<lambda>r. currentTileId (component r)) rs =
          [''tile_2_3'', ''tile_2_3'', ''tile_3_3'', ''tile_3_3''] \<and>
        map events rs =
          [[], [],
           [\<lparr> ev_villagerId = ''villager_ava'', ev_tileId = ''tile_3_3'', ev_tick = 12 \<rparr>],
           []] \<and>
        length (concat (map events rs)) = 1"
    using tr len l0 l1 l2 l3 i0 i1 i2 i3 c0 c1 c2 c3 e0 e1 e2 e3
    by (intro exI[of _ rs] conjI) (simp_all add: rs del: advanceTrace.simps)
  from first asg second show ?thesis by (intro conjI)
qed


text \<open>
  Claim C9, as amended.  For a valid tick, when the tick is not after the last-processed
  tick or the path has at most one tile, \<^verbatim>\<open>advanceVillagerMovement\<close> emits no event and
  returns the component with every field unchanged except \<open>lastProcessedTick\<close>, which
  becomes the maximum of its old value and the tick; the component is returned unchanged
  when the tick is not after the last-processed tick.
\<close>

theorem advance_noop_up_to_lastProcessedTick:
  assumes "0 \<le> t" and "t \<le> lastProcessedTick c \<or> length (path c) \<le> 1"
  shows "advanceVillagerMovement c t =
           Inr \<lparr> component = c\<lparr> lastProcessedTick := max (lastProcessedTick c) t \<rparr>, events = [] \<rparr>
         \<and> (t \<le> lastProcessedTick c \<longrightarrow>
              advanceVillagerMovement c t = Inr \<lparr> component = c, events = [] \<rparr>)"
  using assms by (auto simp: advanceVillagerMovement_def assertNonNegativeInteger_def max_def)

theorem advance_noop_up_to_lastProcessedTick_witness:
  "(0::int) \<le> 5 \<and>
   length (path \<lparr> villagerId = ''villager_ava'', currentTileId = ''tile_1_1'',
                  path = [''tile_1_1''], pathIndex = 0, lastProcessedTick = 7,
                  arrivedAtTick = Some 0 \<rparr>) \<le> 1 \<and>
   advanceVillagerMovement
     \<lparr> villagerId = ''villager_ava'', currentTileId = ''tile_1_1'', path = [''tile_1_1''],
       pathIndex = 0, lastProcessedTick = 7, arrivedAtTick = Some 0 \<rparr> 5 =
   Inr \<lparr> component =
           \<lparr> villagerId = ''villager_ava'', currentTileId = ''tile_1_1'', path = [''tile_1_1''],
             pathIndex = 0, lastProcessedTick = 7, arrivedAtTick = Some 0 \<rparr>,
         events = [] \<rparr>"
  using advance_noop_up_to_lastProcessedTick
    [of 5 "\<lparr> villagerId = ''villager_ava'', currentTileId = ''tile_1_1'',
              path = [''tile_1_1''], pathIndex = 0, lastProcessedTick = 7,
              arrivedAtTick = Some 0 \<rparr>"]
  by simp

text \<open>
  Claim C9 as stated fails: a stationary component (one-tile path) advanced to a later tick
  comes back with \<open>lastProcessedTick\<close> moved to that tick.
\<close>

theorem advance_noop_counterexample:
  "length (path \<lparr> villagerId = ''villager_ava'', currentTileId = ''tile_1_1'',
                  path = [''tile_1_1''], pathIndex = 0, lastProcessedTick = 0,
                  arrivedAtTick = Some 0 \<rparr>) \<le> 1 \<and>
   advanceVillagerMovement
     \<lparr> villagerId = ''villager_ava'', currentTileId = ''tile_1_1'', path = [''tile_1_1''],
       pathIndex = 0, lastProcessedTick = 0, arrivedAtTick = Some 0 \<rparr> 5 \<noteq>
   Inr \<lparr> component =
           \<lparr> villagerId = ''villager_ava'', currentTileId = ''tile_1_1'', path = [''tile_1_1''],
             pathIndex = 0, lastProcessedTick = 0, arrivedAtTick = Some 0 \<rparr>,
         events = [] \<rparr>"
  by (simp add: advanceVillagerMovement_def assertNonNegativeInteger_def)

section \<open>Replan scheduling\<close>

text \<open>
  Claim C7.  \<^verbatim>\<open>shouldRequestNpcReplan\<close> returns undefined whenever the last plan signature
  equals the prompt signature, whatever the tick, the interval and the major-event tick.
  Every completion of a request, success or failure, leaves the requesting villager's entry
  with \<open>lastPlanSignature\<close> equal to the signature the request was issued with, and
  changes no other villager's entry.  Hence the next evaluation of that villager with an
  unchanged signature reports "not due", at any tick and for any interval.
\<close>

theorem replan_dedupe_unchanged_signature:
  "(in_lastPlanSignature inp = Some (in_promptSignature inp) \<longrightarrow> shouldRequestNpcReplan inp = None)
   \<and> length (completeReplan vid t sig outcome current) = length current
   \<and> (\<forall>j<length current.
        rt_villagerId (completeReplan vid t sig outcome current ! j) = rt_villagerId (current ! j) \<and>
        (rt_villagerId (current ! j) = vid \<longrightarrow>
           lastPlanSignature (rt_replan (completeReplan vid t sig outcome current ! j)) = Some sig \<and>
           replanReasonFor t' intervalTicks sig (completeReplan vid t sig outcome current ! j) = None) \<and>
        (rt_villagerId (current ! j) \<noteq> vid \<longrightarrow>
           completeReplan vid t sig outcome current ! j = current ! j))"
  by (cases outcome)
     (auto simp: shouldRequestNpcReplan_def replanReasonFor_def completeReplan_def
        replanSucceeded_def replanFailed_def Let_def)

theorem replan_dedupe_unchanged_signature_witness:
  "shouldRequestNpcReplan
     \<lparr> in_tick = 1000, in_intervalTicks = 30, in_promptSignature = ''farm#tile_3_7'',
       in_lastPlanTick = Some 10, in_lastPlanSignature = Some ''farm#tile_3_7'',
       in_lastMajorEventTick = Some 999 \<rparr> = None
   \<and> replanReasonFor 1000 30 ''farm#tile_3_7''
        (completeReplan ''villager_ava'' 10 ''farm#tile_3_7'' Failed
          [\<lparr> rt_villagerId = ''villager_ava'',
             rt_replan = \<lparr> lastPlanTick = None, lastPlanSignature = None,
                           lastMajorEventTick = Some 999, intent = None,
                           intentUpdatedAtTick = None \<rparr> \<rparr>] ! 0) = None"
  using replan_dedupe_unchanged_signature
    [of "\<lparr> in_tick = 1000, in_intervalTicks = 30, in_promptSignature = ''farm#tile_3_7'',
           in_lastPlanTick = Some 10, in_lastPlanSignature = Some ''farm#tile_3_7'',
           in_lastMajorEventTick = Some 999 \<rparr>"
        "''villager_ava''" 10 "''farm#tile_3_7''" Failed
        "[\<lparr> rt_villagerId = ''villager_ava'',
             rt_replan = \<lparr> lastPlanTick = None, lastPlanSignature = None,
                           lastMajorEventTick = Some 999, intent = None,
                           intentUpdatedAtTick = None \<rparr> \<rparr>]" 1000 30]
  by simp

section \<open>Schedule index\<close>

lemma resolveLoop_greatest:
  assumes "sorted_wrt (<) (map startMinute es)"
    and "0 \<le> low" and "high < int (length es)" and "low \<le> high + 1"
    and "\<forall>i. i < nat low \<longrightarrow> startMinute (es ! i) \<le> m"
    and "\<forall>i. nat (high + 1) \<le> i \<and> i < length es \<longrightarrow> m < startMinute (es ! i)"
    and "activeEntry = (if low = 0 then None else Some (es ! nat (low - 1)))"
  shows "\<exists>r. resolveLoop es m low high activeEntry = Inr r \<and>
     (case r of
        None \<Rightarrow> (\<forall>e\<in>set es. m < startMinute e)
      | Some e \<Rightarrow> e \<in> set es \<and> startMinute e \<le> m \<and>
          (\<forall>e'\<in>set es. startMinute e' \<le> m \<longrightarrow> startMinute e' \<le> startMinute e))"
  using assms
proof (induction es m low high activeEntry rule: resolveLoop.induct)
  case (1 es m low high activeEntry)
  have mono: "\<And>i j. i \<le> j \<Longrightarrow> j < length es \<Longrightarrow> startMinute (es ! i) \<le> startMinute (es ! j)"
  proof -
    fix i j :: nat assume "i \<le> j" "j < length es"
    then show "startMinute (es ! i) \<le> startMinute (es ! j)"
      using sorted_wrt_nth_less[OF "1.prems"(1), of i j] by (cases "i = j") auto
  qed
  show ?case
  proof (cases "low \<le> high")
    case False
    then have eq: "low = high + 1" using "1.prems"(4) by linarith
    have res: "resolveLoop es m low high activeEntry = Inr activeEntry"
      using False by (subst resolveLoop.simps) simp
    show ?thesis
    proof (cases "low = 0")
      case True
      then have "activeEntry = None" using "1.prems"(7) by simp
      moreover have "\<forall>e\<in>set es. m < startMinute e"
      proof
        fix e assume "e \<in> set es"
        then obtain i where "i < length es" "es ! i = e" by (auto simp: in_set_conv_nth)
        then show "m < startMinute e" using "1.prems"(6) eq True by auto
      qed
      ultimately show ?thesis using res by simp
    next
      case False
      then have lowpos: "0 < low" using "1.prems"(2) by linarith
      have act: "activeEntry = Some (es ! nat (low - 1))" using "1.prems"(7) False by simp
      have idx: "nat (low - 1) < length es" using lowpos eq "1.prems"(3) by linarith
      have a: "es ! nat (low - 1) \<in> set es" using idx by simp
      have b: "startMinute (es ! nat (low - 1)) \<le> m"
        using "1.prems"(5) lowpos by (auto simp: nat_less_iff)
      have c: "\<forall>e'\<in>set es. startMinute e' \<le> m \<longrightarrow> startMinute e' \<le> startMinute (es ! nat (low - 1))"
      proof (intro ballI impI)
        fix e' assume "e' \<in> set es" and le: "startMinute e' \<le> m"
        then obtain i where i: "i < length es" "es ! i = e'" by (auto simp: in_set_conv_nth)
        have "\<not> nat (high + 1) \<le> i" using "1.prems"(6) i le by force
        then have "i \<le> nat (low - 1)" using eq lowpos by linarith
        from mono[OF this idx] show "startMinute e' \<le> startMinute (es ! nat (low - 1))"
          using i by simp
      qed
      show ?thesis using res act a b c by simp
    qed
  next
    case True
    define mid where "mid = (low + high) div 2"
    have midr: "low \<le> mid" "mid \<le> high" using True by (auto simp: mid_def)
    then have mid0: "0 \<le> mid" "mid < int (length es)" using "1.prems"(2,3) by linarith+
    have nmid: "nat mid < length es" using mid0 by linarith
    show ?thesis
    proof (cases "startMinute (es ! nat mid) \<le> m")
      case le: True
      have step: "resolveLoop es m low high activeEntry =
                  resolveLoop es m (mid + 1) high (Some (es ! nat mid))"
        using True mid0 le by (subst resolveLoop.simps) (simp add: mid_def Let_def)
      have p5: "\<forall>i. i < nat (mid + 1) \<longrightarrow> startMinute (es ! i) \<le> m"
      proof (intro allI impI)
        fix i assume "i < nat (mid + 1)"
        then have "i \<le> nat mid" using mid0 by linarith
        from mono[OF this nmid] le show "startMinute (es ! i) \<le> m" by linarith
      qed
      have p7: "Some (es ! nat mid) = (if mid + 1 = 0 then None else Some (es ! nat (mid + 1 - 1)))"
        using mid0 by simp
      have "\<exists>r. resolveLoop es m (mid + 1) high (Some (es ! nat mid)) = Inr r \<and>
         (case r of
            None \<Rightarrow> (\<forall>e\<in>set es. m < startMinute e)
          | Some e \<Rightarrow> e \<in> set es \<and> startMinute e \<le> m \<and>
              (\<forall>e'\<in>set es. startMinute e' \<le> m \<longrightarrow> startMinute e' \<le> startMinute e))"
        using "1.IH"(1)[OF True mid_def _ le "1.prems"(1) _ "1.prems"(3) _ p5 "1.prems"(6) p7]
          mid0 midr by simp
      then show ?thesis using step by simp
    next
      case gt: False
      have step: "resolveLoop es m low high activeEntry =
                  resolveLoop es m low (mid - 1) activeEntry"
        using True mid0 gt by (subst resolveLoop.simps) (simp add: mid_def Let_def)
      have p6: "\<forall>i. nat (mid - 1 + 1) \<le> i \<and> i < length es \<longrightarrow> m < startMinute (es ! i)"
      proof (intro allI impI)
        fix i assume "nat (mid - 1 + 1) \<le> i \<and> i < length es"
        then have "nat mid \<le> i" "i < length es" by simp_all
        from mono[OF this] gt show "m < startMinute (es ! i)" by linarith
      qed
      have "\<exists>r. resolveLoop es m low (mid - 1) activeEntry = Inr r \<and>
         (case r of
            None \<Rightarrow> (\<forall>e\<in>set es. m < startMinute e)
          | Some e \<Rightarrow> e \<in> set es \<and> startMinute e \<le> m \<and>
              (\<forall>e'\<in>set es. startMinute e' \<le> m \<longrightarrow> startMinute e' \<le> startMinute e))"
        using "1.IH"(2)[OF True mid_def _ gt "1.prems"(1,2) _ _ "1.prems"(5) p6 "1.prems"(7)]
          mid0 midr by simp
      then show ?thesis using step by simp
    qed
  qed
qed

lemma strictly_sorted_of_no_duplicate_neighbours:
  "sorted (map startMinute es) \<Longrightarrow> \<not> hasDuplicateNeighbours es \<Longrightarrow>
   sorted_wrt (<) (map startMinute es)"
proof (induction es rule: hasDuplicateNeighbours.induct)
  case (1 a b rest)
  then have "sorted_wrt (<) (map startMinute (b # rest))" by simp
  moreover have "startMinute a < startMinute b" using 1 by auto
  ultimately show ?case by fastforce
qed simp_all

lemma slotsToEntries_map:
  "slotsToEntries slots = Inr es \<Longrightarrow>
   es = map (\<lambda>slot. \<lparr> startMinute = hour slot * 60, entry_action = slot_action slot,
                       entry_targetTileId = slot_targetTileId slot \<rparr>) slots"
  by (induction slots arbitrary: es)
     (auto simp: normalizeHourToMinute_def MINUTES_PER_HOUR_def split: sum.splits if_splits)

lemma createSchedule_sorted:
  assumes "createVillagerDailySchedule villager = Inr schedule"
  shows "sorted_wrt (<) (map startMinute (entries schedule))"
    and "schedule_villagerId schedule = villager_id villager"
    and "set (entries schedule) =
         (\<lambda>slot. \<lparr> startMinute = hour slot * 60, entry_action = slot_action slot,
                    entry_targetTileId = slot_targetTileId slot \<rparr>) ` set (baseSchedule villager)"
proof -
  from assms obtain mapped where m: "slotsToEntries (baseSchedule villager) = Inr mapped"
    and nd: "\<not> hasDuplicateNeighbours (sort_key startMinute mapped)"
    and s: "schedule = \<lparr> schedule_villagerId = villager_id villager,
                          entries = sort_key startMinute mapped \<rparr>"
    by (auto simp: createVillagerDailySchedule_def Let_def split: sum.splits if_splits)
  show "sorted_wrt (<) (map startMinute (entries schedule))"
    using strictly_sorted_of_no_duplicate_neighbours[OF _ nd] s by simp
  show "schedule_villagerId schedule = villager_id villager" using s by simp
  show "set (entries schedule) =
         (\<lambda>slot. \<lparr> startMinute = hour slot * 60, entry_action = slot_action slot,
                    entry_targetTileId = slot_targetTileId slot \<rparr>) ` set (baseSchedule villager)"
    using s slotsToEntries_map[OF m] by simp
qed


text \<open>
  Claim C5.  For a schedule that \<^verbatim>\<open>createVillagerDailySchedule\<close> built (its entries are the
  villager's slots with start minute \<open>60 * hour\<close>, the hours being distinct), and any
  minute of day \<open>m\<close>, \<^verbatim>\<open>resolveActiveVillagerTask\<close> returns normally, and its result is
  either the task of an entry whose start minute is \<open>\<le> m\<close> and is the greatest such, with
  source "schedule" and that entry's action and target, or, when every entry starts after
  \<open>m\<close>, the idle task: action "observe", no target, source "idle".
\<close>

theorem resolve_active_task_greatest_start:
  assumes "createVillagerDailySchedule villager = Inr schedule"
  shows "set (entries schedule) =
           (\<lambda>slot. \<lparr> startMinute = hour slot * 60, entry_action = slot_action slot,
                      entry_targetTileId = slot_targetTileId slot \<rparr>) ` set (baseSchedule villager)
     \<and> (\<exists>task. resolveActiveVillagerTask schedule time = Inr task \<and>
          ((\<exists>e\<in>set (entries schedule).
               startMinute e \<le> minuteOfDay time \<and>
               (\<forall>e'\<in>set (entries schedule).
                   startMinute e' \<le> minuteOfDay time \<longrightarrow> startMinute e' \<le> startMinute e) \<and>
               task = \<lparr> task_villagerId = villager_id villager, task_action = entry_action e,
                        task_targetTileId = Some (entry_targetTileId e),
                        task_source = FromSchedule \<rparr>)
           \<or> ((\<forall>e\<in>set (entries schedule). minuteOfDay time < startMinute e) \<and>
               task = \<lparr> task_villagerId = villager_id villager, task_action = Observe,
                        task_targetTileId = None, task_source = FromIdle \<rparr>)))"
proof -
  note cs = createSchedule_sorted[OF assms]
  let ?es = "entries schedule"
  let ?m = "minuteOfDay time"
  have "\<exists>r. resolveLoop ?es ?m 0 (int (length ?es) - 1) None = Inr r \<and>
     (case r of
        None \<Rightarrow> (\<forall>e\<in>set ?es. ?m < startMinute e)
      | Some e \<Rightarrow> e \<in> set ?es \<and> startMinute e \<le> ?m \<and>
          (\<forall>e'\<in>set ?es. startMinute e' \<le> ?m \<longrightarrow> startMinute e' \<le> startMinute e))"
    by (rule resolveLoop_greatest[OF cs(1)]) auto
  then obtain r where r: "resolveLoop ?es ?m 0 (int (length ?es) - 1) None = Inr r"
    and spec: "case r of
        None \<Rightarrow> (\<forall>e\<in>set ?es. ?m < startMinute e)
      | Some e \<Rightarrow> e \<in> set ?es \<and> startMinute e \<le> ?m \<and>
          (\<forall>e'\<in>set ?es. startMinute e' \<le> ?m \<longrightarrow> startMinute e' \<le> startMinute e)"
    by blast
  show ?thesis
  proof (cases r)
    case None
    then show ?thesis using r spec cs(2,3)
      by (simp add: resolveActiveVillagerTask_def IDLE_ACTION_def)
  next
    case (Some e)
    then have "resolveActiveVillagerTask schedule time =
        Inr \<lparr> task_villagerId = villager_id villager, task_action = entry_action e,
              task_targetTileId = Some (entry_targetTileId e), task_source = FromSchedule \<rparr>"
      using r cs(2) by (simp add: resolveActiveVillagerTask_def)
    moreover have "e \<in> set ?es" "startMinute e \<le> ?m"
      "\<forall>e'\<in>set ?es. startMinute e' \<le> ?m \<longrightarrow> startMinute e' \<le> startMinute e"
      using spec Some by simp_all
    ultimately show ?thesis using cs(3) by blast
  qed
qed

theorem resolve_active_task_greatest_start_witness:
  "createVillagerDailySchedule
     \<lparr> villager_id = ''villager_ava'', villager_role = Farmer,
       baseSchedule = [\<lparr> hour = 12, slot_action = Rest, slot_targetTileId = ''tile_1_1'' \<rparr>,
                       \<lparr> hour = 6, slot_action = Farm, slot_targetTileId = ''tile_3_7'' \<rparr>] \<rparr>
   = Inr \<lparr> schedule_villagerId = ''villager_ava'',
           entries = [\<lparr> startMinute = 360, entry_action = Farm, entry_targetTileId = ''tile_3_7'' \<rparr>,
                      \<lparr> startMinute = 720, entry_action = Rest, entry_targetTileId = ''tile_1_1'' \<rparr>] \<rparr>
   \<and> (\<exists>task. resolveActiveVillagerTask
         \<lparr> schedule_villagerId = ''villager_ava'',
           entries = [\<lparr> startMinute = 360, entry_action = Farm, entry_targetTileId = ''tile_3_7'' \<rparr>,
                      \<lparr> startMinute = 720, entry_action = Rest, entry_targetTileId = ''tile_1_1'' \<rparr>] \<rparr>
         \<lparr> st_tick = 83, st_day = 1, minuteOfDay = 500 \<rparr> = Inr task)"
proof -
  let ?v = "\<lparr> villager_id = ''villager_ava'', villager_role = Farmer,
       baseSchedule = [\<lparr> hour = 12, slot_action = Rest, slot_targetTileId = ''tile_1_1'' \<rparr>,
                       \<lparr> hour = 6, slot_action = Farm, slot_targetTileId = ''tile_3_7'' \<rparr>] \<rparr>"
  let ?s = "\<lparr> schedule_villagerId = ''villager_ava'',
           entries = [\<lparr> startMinute = 360, entry_action = Farm, entry_targetTileId = ''tile_3_7'' \<rparr>,
                      \<lparr> startMinute = 720, entry_action = Rest, entry_targetTileId = ''tile_1_1'' \<rparr>] \<rparr>"
  have h: "createVillagerDailySchedule ?v = Inr ?s"
    by (simp add: createVillagerDailySchedule_def normalizeHourToMinute_def
        MINUTES_PER_DAY_def MINUTES_PER_HOUR_def)
  from resolve_active_task_greatest_start[OF h, of "\<lparr> st_tick = 83, st_day = 1, minuteOfDay = 500 \<rparr>"]
  have "\<exists>task. resolveActiveVillagerTask ?s \<lparr> st_tick = 83, st_day = 1, minuteOfDay = 500 \<rparr> = Inr task"
    by blast
  with h show ?thesis by blast
qed

section \<open>Decision guardrail\<close>

lemma guardrailLoop_violations:
  "guardrailLoop rules context st = Inr st' \<Longrightarrow>
   \<exists>ws. policyViolations st' = policyViolations st @ ws \<and>
        subseq (map policyId ws) (map rule_id rules) \<and>
        (\<forall>w\<in>set ws. violation_outcome w = RewriteOutcome)"
proof (induction rules arbitrary: st)
  case Nil
  then show ?case by simp
next
  case (Cons rule rules)
  show ?case
  proof (cases "moderatedAction st \<notin> set (disallowedActions rule) \<or> \<not> evaluate rule context")
    case True
    then have "guardrailLoop rules context st = Inr st'" using Cons.prems by simp
    from Cons.IH[OF this] obtain ws where
      "policyViolations st' = policyViolations st @ ws"
      "subseq (map policyId ws) (map rule_id rules)"
      "\<forall>w\<in>set ws. violation_outcome w = RewriteOutcome" by blast
    then show ?thesis by (intro exI[of _ ws]) (simp add: list_emb_Cons)
  next
    case False
    then obtain newAction reason where o: "rule_outcome rule = Rewrite newAction reason"
      using Cons.prems by (cases "rule_outcome rule") auto
    let ?v = "\<lparr> policyId = rule_id rule, violation_reason = reason,
                 originalAction = moderatedAction st, finalAction = newAction,
                 violation_outcome = RewriteOutcome \<rparr>"
    let ?st = "\<lparr> moderatedAction = newAction,
                 moderatedTargetTileId =
                   (if \<not> actionRequiresTarget newAction then None else moderatedTargetTileId st),
                 policyViolations = policyViolations st @ [?v] \<rparr>"
    have "guardrailLoop rules context ?st = Inr st'" using Cons.prems False o by simp
    from Cons.IH[OF this] obtain ws where
      "policyViolations st' = policyViolations ?st @ ws"
      "subseq (map policyId ws) (map rule_id rules)"
      "\<forall>w\<in>set ws. violation_outcome w = RewriteOutcome" by blast
    then show ?thesis by (intro exI[of _ "?v # ws"]) simp
  qed
qed

lemma apply_accepted_iff:
  assumes "applyDecisionGuardrails d context = Inr r"
  shows "(moderated_policyViolations r = []) = (moderated_decision r = d)"
  using assms
  by (cases d; cases "decision_action d")
     (auto simp: applyDecisionGuardrails_def DECISION_POLICY_RULES_def actionRequiresTarget_def
       split: if_splits)


lemma apply_block_shop:
  assumes "decision_action d = Shop" "prompt_role context \<noteq> Merchant"
  shows "applyDecisionGuardrails d context =
     Inl (LlmAdapterApiError
       ''Decision blocked by policy role-restriction-shop: Only merchant-role villagers may execute shop actions.''
       422)"
  using assms by (simp add: applyDecisionGuardrails_def DECISION_POLICY_RULES_def)

lemma apply_rewrite_farm:
  assumes "decision_action d = Farm" "prompt_role context \<noteq> Farmer"
  shows "applyDecisionGuardrails d context =
     Inr \<lparr> moderated_decision =
             \<lparr> decision_action = Observe, decision_reasoning = decision_reasoning d,
               decision_targetTileId = None \<rparr>,
           decisionValidity = Rewritten,
           moderated_policyViolations =
             [\<lparr> policyId = ''role-restriction-farm'',
                violation_reason = ''Non-farmer villagers cannot execute farm actions.'',
                originalAction = Farm, finalAction = Observe,
                violation_outcome = RewriteOutcome \<rparr>] \<rparr>"
  using assms
  by (simp add: applyDecisionGuardrails_def DECISION_POLICY_RULES_def actionRequiresTarget_def)

lemma apply_validity:
  assumes "applyDecisionGuardrails d context = Inr r"
  shows "(decisionValidity r = Accepted) = (moderated_policyViolations r = [])"
    and "(decisionValidity r = Rewritten) = (moderated_policyViolations r \<noteq> [])"
    and "subseq (map policyId (moderated_policyViolations r))
          [''role-restriction-shop'', ''role-restriction-farm'', ''quiet-hours-social'']"
    and "\<forall>w\<in>set (moderated_policyViolations r). violation_outcome w = RewriteOutcome"
proof -
  from assms obtain st where
    g: "guardrailLoop DECISION_POLICY_RULES context
             \<lparr> moderatedAction = decision_action d,
               moderatedTargetTileId = decision_targetTileId d,
               policyViolations = [] \<rparr> = Inr st"
    and r: "r = \<lparr> moderated_decision =
                  \<lparr> decision_action = moderatedAction st,
                    decision_reasoning = decision_reasoning d,
                    decision_targetTileId = moderatedTargetTileId st \<rparr>,
                decisionValidity = (if length (policyViolations st) > 0 then Rewritten else Accepted),
                moderated_policyViolations = policyViolations st \<rparr>"
    by (auto simp: applyDecisionGuardrails_def split: sum.splits)
  show "(decisionValidity r = Accepted) = (moderated_policyViolations r = [])"
    and "(decisionValidity r = Rewritten) = (moderated_policyViolations r \<noteq> [])"
    using r by auto
  from guardrailLoop_violations[OF g]
  show "subseq (map policyId (moderated_policyViolations r))
          [''role-restriction-shop'', ''role-restriction-farm'', ''quiet-hours-social'']"
    and "\<forall>w\<in>set (moderated_policyViolations r). violation_outcome w = RewriteOutcome"
    using r by (auto simp: DECISION_POLICY_RULES_def)
qed

text \<open>
  Claim C6.  (1) A decision whose action is "shop", from a context whose role is not
  "merchant", makes \<^verbatim>\<open>applyDecisionGuardrails\<close> throw the policy error with status 422:
  nothing is returned.  (2) A decision whose action is "farm", from a context whose role
  is not "farmer", comes back with action "observe", no target, validity "rewritten" and
  the one violation of the farm rule.  (3) In the loop, a matching rewrite rule hands the
  rewritten action, the target (cleared when the new action needs none) and the violation
  list extended at its end to the rules that follow; a matching block rule aborts whatever
  was rewritten before it.  (4) Whenever a result is returned, its validity is "accepted"
  exactly when no violation was recorded, which is exactly when the decision is returned
  unchanged, and "rewritten" otherwise; the violations are rewrite violations and their
  policy ids follow the order of the rules.
\<close>

theorem guardrail_block_rewrite_validity:
  "(decision_action d = Shop \<and> prompt_role context \<noteq> Merchant \<longrightarrow>
      applyDecisionGuardrails d context =
        Inl (LlmAdapterApiError
          ''Decision blocked by policy role-restriction-shop: Only merchant-role villagers may execute shop actions.''
          422))
   \<and> (decision_action d = Farm \<and> prompt_role context \<noteq> Farmer \<longrightarrow>
      applyDecisionGuardrails d context =
        Inr \<lparr> moderated_decision =
                \<lparr> decision_action = Observe, decision_reasoning = decision_reasoning d,
                  decision_targetTileId = None \<rparr>,
              decisionValidity = Rewritten,
              moderated_policyViolations =
                [\<lparr> policyId = ''role-restriction-farm'',
                   violation_reason = ''Non-farmer villagers cannot execute farm actions.'',
                   originalAction = Farm, finalAction = Observe,
                   violation_outcome = RewriteOutcome \<rparr>] \<rparr>)
   \<and> (moderatedAction st \<in> set (disallowedActions rule) \<and> evaluate rule c \<longrightarrow>
        (\<forall>newAction reason. rule_outcome rule = Rewrite newAction reason \<longrightarrow>
           guardrailLoop (rule # rules) c st =
             guardrailLoop rules c
               \<lparr> moderatedAction = newAction,
                 moderatedTargetTileId =
                   (if actionRequiresTarget newAction then moderatedTargetTileId st else None),
                 policyViolations = policyViolations st @
                   [\<lparr> policyId = rule_id rule, violation_reason = reason,
                      originalAction = moderatedAction st, finalAction = newAction,
                      violation_outcome = RewriteOutcome \<rparr>] \<rparr>) \<and>
        (\<forall>reason. rule_outcome rule = Block reason \<longrightarrow>
           (\<exists>msg. guardrailLoop (rule # rules) c st = Inl (LlmAdapterApiError msg 422))))
   \<and> (\<forall>r. applyDecisionGuardrails d context = Inr r \<longrightarrow>
        (decisionValidity r = Accepted) = (moderated_policyViolations r = []) \<and>
        (moderated_policyViolations r = []) = (moderated_decision r = d) \<and>
        (decisionValidity r = Rewritten) = (moderated_policyViolations r \<noteq> []) \<and>
        (\<forall>w\<in>set (moderated_policyViolations r). violation_outcome w = RewriteOutcome) \<and>
        subseq (map policyId (moderated_policyViolations r))
          [''role-restriction-shop'', ''role-restriction-farm'', ''quiet-hours-social''])"
proof (intro conjI)
  show "decision_action d = Shop \<and> prompt_role context \<noteq> Merchant \<longrightarrow>
      applyDecisionGuardrails d context =
        Inl (LlmAdapterApiError
          ''Decision blocked by policy role-restriction-shop: Only merchant-role villagers may execute shop actions.''
          422)"
    using apply_block_shop by blast
  show "decision_action d = Farm \<and> prompt_role context \<noteq> Farmer \<longrightarrow>
      applyDecisionGuardrails d context =
        Inr \<lparr> moderated_decision =
                \<lparr> decision_action = Observe, decision_reasoning = decision_reasoning d,
                  decision_targetTileId = None \<rparr>,
              decisionValidity = Rewritten,
              moderated_policyViolations =
                [\<lparr> policyId = ''role-restriction-farm'',
                   violation_reason = ''Non-farmer villagers cannot execute farm actions.'',
                   originalAction = Farm, finalAction = Observe,
                   violation_outcome = RewriteOutcome \<rparr>] \<rparr>"
    using apply_rewrite_farm by blast
  show "moderatedAction st \<in> set (disallowedActions rule) \<and> evaluate rule c \<longrightarrow>
        (\<forall>newAction reason. rule_outcome rule = Rewrite newAction reason \<longrightarrow>
           guardrailLoop (rule # rules) c st =
             guardrailLoop rules c
               \<lparr> moderatedAction = newAction,
                 moderatedTargetTileId =
                   (if actionRequiresTarget newAction then moderatedTargetTileId st else None),
                 policyViolations = policyViolations st @
                   [\<lparr> policyId = rule_id rule, violation_reason = reason,
                      originalAction = moderatedAction st, finalAction = newAction,
                      violation_outcome = RewriteOutcome \<rparr>] \<rparr>) \<and>
        (\<forall>reason. rule_outcome rule = Block reason \<longrightarrow>
           (\<exists>msg. guardrailLoop (rule # rules) c st = Inl (LlmAdapterApiError msg 422)))"
    by simp
  show "\<forall>r. applyDecisionGuardrails d context = Inr r \<longrightarrow>
        (decisionValidity r = Accepted) = (moderated_policyViolations r = []) \<and>
        (moderated_policyViolations r = []) = (moderated_decision r = d) \<and>
        (decisionValidity r = Rewritten) = (moderated_policyViolations r \<noteq> []) \<and>
        (\<forall>w\<in>set (moderated_policyViolations r). violation_outcome w = RewriteOutcome) \<and>
        subseq (map policyId (moderated_policyViolations r))
          [''role-restriction-shop'', ''role-restriction-farm'', ''quiet-hours-social'']"
    using apply_validity apply_accepted_iff by blast
qed


theorem guardrail_block_rewrite_validity_witness:
  "applyDecisionGuardrails
     \<lparr> decision_action = Shop, decision_reasoning = ''sell crops'',
       decision_targetTileId = Some ''tile_9_5'' \<rparr>
     \<lparr> prompt_role = Builder,
       prompt_worldTime = \<lparr> st_tick = 100, st_day = 1, minuteOfDay = 600 \<rparr> \<rparr> =
   Inl (LlmAdapterApiError
     ''Decision blocked by policy role-restriction-shop: Only merchant-role villagers may execute shop actions.''
     422)
   \<and> applyDecisionGuardrails
     \<lparr> decision_action = Farm, decision_reasoning = ''tend the field'',
       decision_targetTileId = Some ''tile_3_7'' \<rparr>
     \<lparr> prompt_role = Builder,
       prompt_worldTime = \<lparr> st_tick = 100, st_day = 1, minuteOfDay = 600 \<rparr> \<rparr> =
   Inr \<lparr> moderated_decision =
           \<lparr> decision_action = Observe, decision_reasoning = ''tend the field'',
             decision_targetTileId = None \<rparr>,
         decisionValidity = Rewritten,
         moderated_policyViolations =
           [\<lparr> policyId = ''role-restriction-farm'',
              violation_reason = ''Non-farmer villagers cannot execute farm actions.'',
              originalAction = Farm, finalAction = Observe,
              violation_outcome = RewriteOutcome \<rparr>] \<rparr>
   \<and> guardrailLoop
       [\<lparr> rule_id = ''role-restriction-farm'', disallowedActions = [Farm],
          evaluate = (\<lambda>context. prompt_role context \<noteq> Farmer),
          rule_outcome = Rewrite Observe ''Non-farmer villagers cannot execute farm actions.'' \<rparr>]
       \<lparr> prompt_role = Builder,
         prompt_worldTime = \<lparr> st_tick = 100, st_day = 1, minuteOfDay = 600 \<rparr> \<rparr>
       \<lparr> moderatedAction = Farm, moderatedTargetTileId = Some ''tile_3_7'',
         policyViolations = [] \<rparr> =
     Inr \<lparr> moderatedAction = Observe, moderatedTargetTileId = None,
           policyViolations =
             [\<lparr> policyId = ''role-restriction-farm'',
                violation_reason = ''Non-farmer villagers cannot execute farm actions.'',
                originalAction = Farm, finalAction = Observe,
                violation_outcome = RewriteOutcome \<rparr>] \<rparr>"
proof -
  let ?ctx = "\<lparr> prompt_role = Builder,
       prompt_worldTime = \<lparr> st_tick = 100, st_day = 1, minuteOfDay = 600 \<rparr> \<rparr>"
  let ?shop = "\<lparr> decision_action = Shop, decision_reasoning = ''sell crops'',
       decision_targetTileId = Some ''tile_9_5'' \<rparr>"
  let ?farm = "\<lparr> decision_action = Farm, decision_reasoning = ''tend the field'',
       decision_targetTileId = Some ''tile_3_7'' \<rparr>"
  let ?rule = "\<lparr> rule_id = ''role-restriction-farm'', disallowedActions = [Farm],
          evaluate = (\<lambda>context. prompt_role context \<noteq> Farmer),
          rule_outcome = Rewrite Observe ''Non-farmer villagers cannot execute farm actions.'' \<rparr>"
  let ?st = "\<lparr> moderatedAction = Farm, moderatedTargetTileId = Some ''tile_3_7'',
         policyViolations = [] \<rparr>"
  have a: "decision_action ?shop = Shop \<and> prompt_role ?ctx \<noteq> Merchant" by simp
  have b: "decision_action ?farm = Farm \<and> prompt_role ?ctx \<noteq> Farmer" by simp
  have c: "moderatedAction ?st \<in> set (disallowedActions ?rule) \<and> evaluate ?rule ?ctx" by simp
  have d: "rule_outcome ?rule = Rewrite Observe ''Non-farmer villagers cannot execute farm actions.''"
    by simp
  note t1 = guardrail_block_rewrite_validity[of ?shop ?ctx ?st ?rule ?ctx "[]"]
  note t2 = guardrail_block_rewrite_validity[of ?farm ?ctx ?st ?rule ?ctx "[]"]
  have 1: "applyDecisionGuardrails ?shop ?ctx =
     Inl (LlmAdapterApiError
       ''Decision blocked by policy role-restriction-shop: Only merchant-role villagers may execute shop actions.''
       422)"
    using t1 a by blast
  have 2: "applyDecisionGuardrails ?farm ?ctx =
     Inr \<lparr> moderated_decision =
           \<lparr> decision_action = Observe, decision_reasoning = decision_reasoning ?farm,
             decision_targetTileId = None \<rparr>,
         decisionValidity = Rewritten,
         moderated_policyViolations =
           [\<lparr> policyId = ''role-restriction-farm'',
              violation_reason = ''Non-farmer villagers cannot execute farm actions.'',
              originalAction = Farm, finalAction = Observe,
              violation_outcome = RewriteOutcome \<rparr>] \<rparr>"
    using t2 b by blast
  have 3: "guardrailLoop [?rule] ?ctx ?st =
     Inr \<lparr> moderatedAction = Observe, moderatedTargetTileId = None,
           policyViolations =
             [\<lparr> policyId = ''role-restriction-farm'',
                violation_reason = ''Non-farmer villagers cannot execute farm actions.'',
                originalAction = Farm, finalAction = Observe,
                violation_outcome = RewriteOutcome \<rparr>] \<rparr>"
    using t2 c d by (simp add: actionRequiresTarget_def)
  show ?thesis
    using 1 2 3 by simp
qed

section \<open>Shortest paths: the binary-heap search\<close>

subsection \<open>The heap order\<close>













subsection \<open>The graph the search walks, and walks in it\<close>











subsection \<open>The invariant of the search loop\<close>


































section \<open>The search always returns\<close>

text \<open>
  Whatever the node map: every \<^verbatim>\<open>cameFrom\<close> link leads from a tile to a closed tile whose
  score is smaller by one, so the walk of \<^verbatim>\<open>reconstructPath\<close> ends.
\<close>

definition linksInv :: "SearchState \<Rightarrow> bool" where
  "linksInv st \<longleftrightarrow>
     (\<forall>v x. gScore st v = Some x \<longrightarrow> (\<exists>g. x = enat g)) \<and>
     (\<forall>v u. cameFrom st v = Some u \<longrightarrow>
         u \<in> closedSet st \<and>
         (\<exists>g. gScore st u = Some (enat g) \<and> gScore st v = Some (enat (Suc g))))"

lemma linksInv_relaxNeighbor:
  assumes "linksInv st" "current \<in> closedSet st"
  shows "linksInv (relaxNeighbor nodesById d blocked current n st)"
proof -
  let ?improves = "n \<notin> closedSet st \<and> n \<notin> blocked \<and>
        (\<exists>nn. map_of nodesById n = Some nn \<and> node_walkable nn) \<and>
        \<not> scoreOrInfinity (gScore st) current + 1 \<ge> scoreOrInfinity (gScore st) n"
  show ?thesis
  proof (cases ?improves)
    case False
    then have "relaxNeighbor nodesById d blocked current n st = st"
      by (auto simp: relaxNeighbor_def Let_def split: option.splits)
    then show ?thesis using assms(1) by simp
  next
    case True
    then obtain nn where ncl: "n \<notin> closedSet st" and nbl: "n \<notin> blocked"
      and nn: "map_of nodesById n = Some nn" "node_walkable nn"
      and imp: "\<not> scoreOrInfinity (gScore st) current + 1 \<ge> scoreOrInfinity (gScore st) n"
      by blast
    have "scoreOrInfinity (gScore st) current \<noteq> \<infinity>"
    proof (rule notI)
      assume "scoreOrInfinity (gScore st) current = \<infinity>"
      then show False using imp by simp
    qed
    then obtain gc where gc: "gScore st current = Some (enat gc)"
      using assms(1) unfolding linksInv_def scoreOrInfinity_def
      by (cases "gScore st current") auto
    have tent: "scoreOrInfinity (gScore st) current + 1 = enat (Suc gc)"
      using gc by (simp add: scoreOrInfinity_def one_enat_def)
    let ?st' = "st\<lparr> cameFrom := (cameFrom st)(n \<mapsto> current),
                    gScore := (gScore st)(n \<mapsto> enat (Suc gc)),
                    heap := heapPush (heap st) n
                      (enat (Suc gc) + heuristicDistance nodesById n d) \<rparr>"
    have upd: "relaxNeighbor nodesById d blocked current n st = ?st'"
      using ncl nbl nn imp tent by (simp add: relaxNeighbor_def Let_def)
    have nc: "n \<noteq> current" using assms(2) ncl by auto
    have links: "\<And>v u. cameFrom st v = Some u \<Longrightarrow> u \<in> closedSet st \<and>
         (\<exists>g. gScore st u = Some (enat g) \<and> gScore st v = Some (enat (Suc g)))"
      using assms(1) unfolding linksInv_def by blast
    have fin: "\<And>v x. gScore st v = Some x \<Longrightarrow> \<exists>g. x = enat g"
      using assms(1) unfolding linksInv_def by blast
    have A: "\<forall>v x. gScore ?st' v = Some x \<longrightarrow> (\<exists>g. x = enat g)"
    proof (intro allI impI)
      fix v x assume "gScore ?st' v = Some x"
      then show "\<exists>g. x = enat g" using fin[of v x] by (auto split: if_splits)
    qed
    have B: "\<forall>v u. cameFrom ?st' v = Some u \<longrightarrow>
            u \<in> closedSet ?st' \<and>
            (\<exists>g. gScore ?st' u = Some (enat g) \<and> gScore ?st' v = Some (enat (Suc g)))"
    proof (intro allI impI)
      fix v u assume cf: "cameFrom ?st' v = Some u"
      show "u \<in> closedSet ?st' \<and>
            (\<exists>g. gScore ?st' u = Some (enat g) \<and> gScore ?st' v = Some (enat (Suc g)))"
      proof (cases "v = n")
        case True
        then show ?thesis using cf assms(2) gc nc by simp
      next
        case False
        then have old: "cameFrom st v = Some u" using cf by simp
        from links[OF old] ncl have "u \<noteq> n" by auto
        then show ?thesis using links[OF old] False by simp
      qed
    qed
    have "linksInv ?st'"
      unfolding linksInv_def by (intro conjI A B)
    then show ?thesis using upd by simp
  qed
qed

lemma linksInv_fold_relax:
  "linksInv st \<Longrightarrow> current \<in> closedSet st \<Longrightarrow>
   linksInv (fold (relaxNeighbor nodesById d blocked current) ns st)"
proof (induction ns arbitrary: st)
  case Nil
  then show ?case by simp
next
  case (Cons n ns)
  have "linksInv (relaxNeighbor nodesById d blocked current n st)"
    using linksInv_relaxNeighbor[OF Cons.prems] .
  moreover have "current \<in> closedSet (relaxNeighbor nodesById d blocked current n st)"
    using Cons.prems(2) by simp
  ultimately show ?case using Cons.IH by simp
qed

lemma linksInv_expandCurrent:
  assumes "linksInv st"
  shows "linksInv (expandCurrent nodesById d blocked current (st\<lparr> heap := rest \<rparr>))"
proof -
  let ?st1 = "st\<lparr> heap := rest, closedSet := insert current (closedSet st) \<rparr>"
  have 1: "linksInv ?st1" using assms unfolding linksInv_def by auto
  have 2: "current \<in> closedSet ?st1" by simp
  show ?thesis
  proof (cases "map_of nodesById current")
    case None
    then show ?thesis using 1 by (simp add: expandCurrent_def)
  next
    case (Some currentNode)
    then show ?thesis using linksInv_fold_relax[OF 1 2] by (simp add: expandCurrent_def)
  qed
qed

lemma reconstructLoop_returns:
  assumes "linksInv st"
  shows "gScore st v = Some (enat g) \<Longrightarrow> \<exists>r. reconstructLoop (cameFrom st) acc v = Some r"
proof (induction g arbitrary: v acc)
  case 0
  have "cameFrom st v = None"
  proof (rule ccontr)
    assume "cameFrom st v \<noteq> None"
    then obtain u where "cameFrom st v = Some u" by auto
    then show False using assms 0 unfolding linksInv_def by fastforce
  qed
  then show ?case by (subst reconstructLoop.simps) simp
next
  case (Suc g)
  show ?case
  proof (cases "cameFrom st v")
    case None
    then show ?thesis by (subst reconstructLoop.simps) simp
  next
    case (Some u)
    then have "\<exists>g'. gScore st u = Some (enat g') \<and> gScore st v = Some (enat (Suc g'))"
      using assms unfolding linksInv_def by blast
    then have gu: "gScore st u = Some (enat g)" using Suc.prems by auto
    from Suc.IH[OF gu, of "acc @ [u]"] obtain r where
      "reconstructLoop (cameFrom st) (acc @ [u]) u = Some r" by blast
    then show ?thesis using Some by (subst reconstructLoop.simps) simp
  qed
qed

lemma reconstructPath_returns:
  assumes "linksInv st"
  shows "\<exists>r. reconstructPath (cameFrom st) v = Some r"
proof (cases "gScore st v")
  case None
  have "cameFrom st v = None"
  proof (rule ccontr)
    assume "cameFrom st v \<noteq> None"
    then obtain u where "cameFrom st v = Some u" by auto
    then show False using assms None unfolding linksInv_def by fastforce
  qed
  then have "reconstructLoop (cameFrom st) [v] v = Some [v]"
    by (subst reconstructLoop.simps) simp
  then show ?thesis by (simp add: reconstructPath_def)
next
  case (Some x)
  then obtain g where "x = enat g" using assms unfolding linksInv_def by blast
  with Some reconstructLoop_returns[OF assms, of v g "[v]"]
  show ?thesis by (auto simp: reconstructPath_def)
qed

lemma searchLoop_returns:
  "linksInv st \<Longrightarrow> \<exists>r. searchLoop nodesById d blocked st = Some r"
proof (induction nodesById d blocked st rule: searchLoop.induct)
  case (1 nodesById d blocked st)
  show ?case
  proof (cases "heap st = []")
    case True
    then show ?thesis by (subst searchLoop.simps) simp
  next
    case False
    from heapPop_nonempty[OF False] obtain rest where
      pop: "heapPop (heap st) = (Some (heap_id (heap st ! 0)), rest)" by blast
    define current where "current = heap_id (heap st ! 0)"
    have pop': "heapPop (heap st) = (Some current, rest)" using pop by (simp add: current_def)
    show ?thesis
    proof (cases "current = []")
      case True
      then show ?thesis using False pop' by (subst searchLoop.simps) simp
    next
      case cne: False
      show ?thesis
      proof (cases "current = d")
        case True
        from reconstructPath_returns[OF "1.prems", of current] obtain p where
          "reconstructPath (cameFrom st) current = Some p" by blast
        then show ?thesis using False pop' cne True by (subst searchLoop.simps) simp
      next
        case nd: False
        show ?thesis
        proof (cases "current \<in> closedSet st")
          case True
          have "linksInv (st\<lparr> heap := rest \<rparr>)" using "1.prems" unfolding linksInv_def by simp
          from "1.IH"(1)[OF _ pop'[symmetric] refl cne nd True this] False
          show ?thesis using False pop' cne nd True by (subst searchLoop.simps) simp
        next
          case nc: False
          have "linksInv (expandCurrent nodesById d blocked current (st\<lparr> heap := rest \<rparr>))"
            using linksInv_expandCurrent[OF "1.prems"] .
          from "1.IH"(2)[OF _ pop'[symmetric] refl cne nd nc this] False
          show ?thesis using False pop' cne nd nc by (subst searchLoop.simps) simp
        qed
      qed
    qed
  qed
qed

lemma findShortestPath_returns:
  "\<exists>r. findShortestPath nodesById s d blocked = Some r"
  unfolding findShortestPath_def Let_def
  by (rule searchLoop_returns) (auto simp: linksInv_def zero_enat_def split: if_splits)

lemma findShortestPath_not_None:
  "findShortestPath nodesById s d blocked \<noteq> None"
  using findShortestPath_returns[of nodesById s d blocked] by auto

lemma findPath_returns:
  "\<exists>result svc'. findPath svc request = Some (result, svc')"
  unfolding findPath_def Let_def
  by (simp add: findShortestPath_not_None split: option.splits list.splits)

section \<open>The route cache\<close>

text \<open>The key \<^verbatim>\<open>findPath\<close> computes for a request whose two tiles are known.\<close>

definition requestCacheKey :: "PathfindingService \<Rightarrow> PathfindingRequest \<Rightarrow> string" where
  "requestCacheKey svc request =
     (case (map_of (svc_nodesById svc) (startTileId request),
            map_of (svc_nodesById svc) (destinationTileId request)) of
        (Some startNode, Some destinationNode) \<Rightarrow>
          toCacheKey (node_id startNode) (node_id destinationNode)
            (blockedSetOf (blockedTileIds request))
      | _ \<Rightarrow> [])"

text \<open>Lines 81-85: store the path, then drop the oldest entry if the cache overflows.\<close>

definition storeRoute :: "nat \<Rightarrow> string \<Rightarrow> TileId list \<Rightarrow> (string, TileId list) js_map \<Rightarrow>
    (string, TileId list) js_map" where
  "storeRoute cap k p cache =
     (let c = AList.update k p cache in
      if length c > cap then
        (case c of [] \<Rightarrow> c | (oldestKey, _) # _ \<Rightarrow> if oldestKey \<noteq> [] then AList.delete oldestKey c else c)
      else c)"

text \<open>Lines 71-72: a hit is deleted and stored again, which moves it to the end.\<close>

definition refreshRoute :: "string \<Rightarrow> TileId list \<Rightarrow> (string, TileId list) js_map \<Rightarrow>
    (string, TileId list) js_map" where
  "refreshRoute k p cache = AList.update k p (AList.delete k cache)"

definition cacheInv :: "PathfindingService \<Rightarrow> bool" where
  "cacheInv svc \<longleftrightarrow>
     distinct (map fst (svc_routeCache svc)) \<and>
     length (svc_routeCache svc) \<le> normalizedMaxCachedRoutes svc \<and>
     1 \<le> normalizedMaxCachedRoutes svc \<and>
     [] \<notin> fst ` set (svc_routeCache svc)"

lemma toCacheKey_nonempty: "toCacheKey a b c \<noteq> []"
  by (simp add: toCacheKey_def Let_def)

lemma findPath_cases:
  assumes "findPath svc request = Some (result, svc')"
  shows "(\<exists>reason. result = Unreachable reason [] \<and> svc' = svc)
       \<or> (\<exists>i. result = Found [i] False \<and> svc' = svc \<and>
               (\<exists>a b. map_of (svc_nodesById svc) (startTileId request) = Some a \<and>
                      map_of (svc_nodesById svc) (destinationTileId request) = Some b \<and>
                      node_id a = i \<and> node_id b = i))
       \<or> (\<exists>p. result = Found p True \<and>
               map_of (svc_routeCache svc) (requestCacheKey svc request) = Some p \<and>
               requestCacheKey svc request \<noteq> [] \<and>
               svc' = svc\<lparr> svc_routeCache :=
                        refreshRoute (requestCacheKey svc request) p (svc_routeCache svc) \<rparr>)
       \<or> (\<exists>p. result = Found p False \<and>
               map_of (svc_routeCache svc) (requestCacheKey svc request) = None \<and>
               requestCacheKey svc request \<noteq> [] \<and>
               (\<exists>a b. map_of (svc_nodesById svc) (startTileId request) = Some a \<and>
                      map_of (svc_nodesById svc) (destinationTileId request) = Some b \<and>
                      node_id a \<noteq> node_id b \<and>
                      findShortestPath (svc_nodesById svc) (node_id a) (node_id b)
                        (set (blockedSetOf (blockedTileIds request))) = Some (Some p)) \<and>
               svc' = svc\<lparr> svc_routeCache :=
                        storeRoute (normalizedMaxCachedRoutes svc)
                          (requestCacheKey svc request) p (svc_routeCache svc) \<rparr>)"
  using assms
  unfolding findPath_def requestCacheKey_def storeRoute_def refreshRoute_def Let_def
  by (auto simp: toCacheKey_nonempty split: option.splits if_splits list.splits)

lemma update_absent: "k \<notin> fst ` set al \<Longrightarrow> AList.update k v al = al @ [(k, v)]"
  by (induction al) auto

lemma set_update_subset: "set (AList.update k v al) \<subseteq> insert (k, v) (set al)"
  by (induction al) auto

lemma delete_absent_key: "k \<notin> fst ` set al \<Longrightarrow> AList.delete k al = al"
  by (rule AList.delete_id)

lemma map_of_None_keys: "map_of al k = None \<longleftrightarrow> k \<notin> fst ` set al"
  by (simp add: map_of_eq_None_iff)

lemma storeRoute_miss:
  assumes "distinct (map fst cache)" "[] \<notin> fst ` set cache" "k \<noteq> []"
    "map_of cache k = None" "1 \<le> cap" "length cache \<le> cap"
  shows "storeRoute cap k p cache =
           (if length cache < cap then cache @ [(k, p)] else tl cache @ [(k, p)])"
proof -
  have knew: "k \<notin> fst ` set cache" using assms(4) by (simp add: map_of_None_keys)
  then have upd: "AList.update k p cache = cache @ [(k, p)]" by (rule update_absent)
  show ?thesis
  proof (cases "length cache < cap")
    case True
    then show ?thesis using upd by (simp add: storeRoute_def Let_def)
  next
    case False
    then have full: "length cache = cap" using assms(6) by simp
    then obtain k0 v0 rest where c: "cache = (k0, v0) # rest"
      using assms(5) by (cases cache) auto
    have k0: "k0 \<noteq> []" "k0 \<noteq> k" "k0 \<notin> fst ` set rest"
      using assms(1,2) knew c by auto
    have "AList.delete k0 (((k0, v0) # rest) @ [(k, p)]) = rest @ [(k, p)]"
      using k0 by (simp add: AList.delete_eq delete_absent_key[unfolded AList.delete_eq])
    then show ?thesis using upd c full k0 by (simp add: storeRoute_def Let_def)
  qed
qed

lemma refreshRoute_hit:
  "refreshRoute k p cache = AList.delete k cache @ [(k, p)]"
  unfolding refreshRoute_def
  by (rule update_absent) (rule AList.delete_notin_dom)

lemma length_delete_present:
  "distinct (map fst al) \<Longrightarrow> map_of al k = Some v \<Longrightarrow> Suc (length (AList.delete k al)) = length al"
proof (induction al)
  case Nil
  then show ?case by simp
next
  case (Cons a al)
  obtain k' v' where a: "a = (k', v')" by (cases a)
  show ?case
  proof (cases "k' = k")
    case True
    then have "k \<notin> fst ` set al" using Cons.prems(1) a by auto
    then show ?thesis using True a by (simp add: delete_absent_key)
  next
    case False
    then show ?thesis using Cons a by simp
  qed
qed

lemma cacheInv_findPath:
  assumes "cacheInv svc" "findPath svc request = Some (result, svc')"
  shows "cacheInv svc'"
    and "normalizedMaxCachedRoutes svc' = normalizedMaxCachedRoutes svc"
    and "svc_nodesById svc' = svc_nodesById svc"
proof -
  let ?k = "requestCacheKey svc request"
  let ?c = "svc_routeCache svc"
  note inv = assms(1)[unfolded cacheInv_def]
  from findPath_cases[OF assms(2)]
  consider (same) "svc' = svc"
    | (hit) p where "map_of ?c ?k = Some p" "?k \<noteq> []"
        "svc' = svc\<lparr> svc_routeCache := refreshRoute ?k p ?c \<rparr>"
    | (miss) p where "map_of ?c ?k = None" "?k \<noteq> []"
        "svc' = svc\<lparr> svc_routeCache := storeRoute (normalizedMaxCachedRoutes svc) ?k p ?c \<rparr>"
    by blast
  then have "cacheInv svc' \<and> normalizedMaxCachedRoutes svc' = normalizedMaxCachedRoutes svc
      \<and> svc_nodesById svc' = svc_nodesById svc"
  proof cases
    case same
    then show ?thesis using assms(1) by simp
  next
    case (hit p)
    have c': "svc_routeCache svc' = AList.delete ?k ?c @ [(?k, p)]"
      using hit(3) by (simp add: refreshRoute_hit)
    have d: "distinct (map fst (AList.delete ?k ?c))" using inv by (simp add: AList.distinct_delete)
    have nk: "?k \<notin> fst ` set (AList.delete ?k ?c)" by (rule AList.delete_notin_dom)
    have sub: "fst ` set (AList.delete ?k ?c) \<subseteq> fst ` set ?c" by (rule AList.dom_delete_subset)
    have len: "Suc (length (AList.delete ?k ?c)) = length ?c"
      using length_delete_present[OF _ hit(1)] inv by simp
    show ?thesis
      unfolding cacheInv_def c'
      using d nk sub len inv hit(2,3) by (auto simp: image_Un)
  next
    case (miss p)
    have c': "svc_routeCache svc' =
        (if length ?c < normalizedMaxCachedRoutes svc then ?c @ [(?k, p)] else tl ?c @ [(?k, p)])"
      using miss(3) storeRoute_miss[of ?c ?k "normalizedMaxCachedRoutes svc" p] inv miss(1,2)
      by simp
    have knew: "?k \<notin> fst ` set ?c" using miss(1) by (simp add: map_of_None_keys)
    show ?thesis
    proof (cases "length ?c < normalizedMaxCachedRoutes svc")
      case True
      then show ?thesis unfolding cacheInv_def using c' inv knew miss(2,3) by (auto simp: image_Un)
    next
      case False
      then have ne: "?c \<noteq> []" using inv by auto
      have t1: "distinct (map fst (tl ?c))" using inv ne by (cases ?c) auto
      have t2: "fst ` set (tl ?c) \<subseteq> fst ` set ?c" using ne by (cases ?c) auto
      have t3: "Suc (length (tl ?c)) = length ?c" using ne by (cases ?c) auto
      show ?thesis unfolding cacheInv_def using c' False inv knew miss(2,3) t1 t2 t3
        by (auto simp: image_Un)
    qed
  qed
  then show "cacheInv svc'"
    and "normalizedMaxCachedRoutes svc' = normalizedMaxCachedRoutes svc"
    and "svc_nodesById svc' = svc_nodesById svc" by simp_all
qed

lemma cacheInv_create: "cacheInv (createPathfindingService tiles cap)"
  by (auto simp: cacheInv_def createPathfindingService_def)

lemma findPaths_inv:
  "cacheInv svc \<Longrightarrow>
   \<exists>results svc'. findPaths svc requests = Some (results, svc') \<and>
      length results = length requests \<and> cacheInv svc' \<and>
      normalizedMaxCachedRoutes svc' = normalizedMaxCachedRoutes svc \<and>
      svc_nodesById svc' = svc_nodesById svc"
proof (induction requests arbitrary: svc)
  case Nil
  then show ?case by simp
next
  case (Cons request requests)
  from findPath_returns[of svc request] obtain result svc1 where
    1: "findPath svc request = Some (result, svc1)" by blast
  note i1 = cacheInv_findPath[OF Cons.prems 1]
  from Cons.IH[OF i1(1)] obtain results svc2 where
    2: "findPaths svc1 requests = Some (results, svc2)" "length results = length requests"
       "cacheInv svc2" "normalizedMaxCachedRoutes svc2 = normalizedMaxCachedRoutes svc1"
       "svc_nodesById svc2 = svc_nodesById svc1" by blast
  show ?case using 1 2 i1 by simp
qed

section \<open>The node map of a tile list\<close>

lemma map_of_fold_update:
  "map_of (fold (\<lambda>t acc. AList.update (k t) (v t) acc) ts m) =
   map_of m ++ map_of (rev (map (\<lambda>t. (k t, v t)) ts))"
proof (induction ts arbitrary: m)
  case Nil
  then show ?case by simp
next
  case (Cons t ts)
  have "map_of (fold (\<lambda>t acc. AList.update (k t) (v t) acc) (t # ts) m) =
        map_of (AList.update (k t) (v t) m) ++ map_of (rev (map (\<lambda>t. (k t, v t)) ts))"
    using Cons.IH by simp
  also have "\<dots> = (map_of m)(k t \<mapsto> v t) ++ map_of (rev (map (\<lambda>t. (k t, v t)) ts))"
    by (simp add: AList.update_conv')
  also have "\<dots> = map_of m ++ map_of (rev (map (\<lambda>t. (k t, v t)) (t # ts)))"
    by (simp add: map_add_upd_left map_add_assoc)
  finally show ?case .
qed

text \<open>The coordinate index and the node of one tile, as \<^verbatim>\<open>createNodesById\<close> builds them.\<close>

definition coordinatesToId :: "Tile list \<Rightarrow> (int \<times> int, TileId) js_map" where
  "coordinatesToId tiles =
     fold (\<lambda>tile m. AList.update
             (toCoordinateKey (coord_x (coordinate tile)) (coord_y (coordinate tile)))
             (tile_id tile) m) tiles []"

definition nodeOfTile :: "Tile list \<Rightarrow> Tile \<Rightarrow> PathfindingNode" where
  "nodeOfTile tiles tile =
     \<lparr> node_id = tile_id tile, node_x = coord_x (coordinate tile),
       node_y = coord_y (coordinate tile), node_walkable = walkable tile,
       neighbors = List.map_filter (map_of (coordinatesToId tiles))
         [toCoordinateKey (coord_x (coordinate tile) + 1) (coord_y (coordinate tile)),
          toCoordinateKey (coord_x (coordinate tile) - 1) (coord_y (coordinate tile)),
          toCoordinateKey (coord_x (coordinate tile)) (coord_y (coordinate tile) + 1),
          toCoordinateKey (coord_x (coordinate tile)) (coord_y (coordinate tile) - 1)] \<rparr>"

lemma createNodesById_fold:
  "createNodesById tiles =
     fold (\<lambda>tile acc. AList.update (tile_id tile) (nodeOfTile tiles tile) acc) tiles []"
  by (simp add: createNodesById_def coordinatesToId_def nodeOfTile_def Let_def)

lemma createNodesById_lookup:
  "map_of (createNodesById tiles) i =
   map_of (rev (map (\<lambda>t. (tile_id t, nodeOfTile tiles t)) tiles)) i"
  unfolding createNodesById_fold map_of_fold_update by simp

lemma createNodesById_node_id:
  assumes "map_of (createNodesById tiles) i = Some n"
  shows "node_id n = i" and "\<exists>t\<in>set tiles. tile_id t = i \<and> n = nodeOfTile tiles t"
proof -
  from assms have "(i, n) \<in> set (rev (map (\<lambda>t. (tile_id t, nodeOfTile tiles t)) tiles))"
    unfolding createNodesById_lookup by (rule map_of_SomeD)
  then show "\<exists>t\<in>set tiles. tile_id t = i \<and> n = nodeOfTile tiles t" by auto
  then show "node_id n = i" by (auto simp: nodeOfTile_def)
qed

section \<open>Claims about the route cache\<close>

text \<open>The request names one known tile as start and destination (line 64 of the source).\<close>

definition sameTile :: "PathfindingService \<Rightarrow> PathfindingRequest \<Rightarrow> bool" where
  "sameTile svc request =
     (case (map_of (svc_nodesById svc) (startTileId request),
            map_of (svc_nodesById svc) (destinationTileId request)) of
        (Some startNode, Some destinationNode) \<Rightarrow> node_id startNode = node_id destinationNode
      | _ \<Rightarrow> False)"

text \<open>The \<^verbatim>\<open>path\<close> field of a result.\<close>

fun pathOfResult :: "PathfindingResult \<Rightarrow> TileId list" where
  "pathOfResult (Found p _) = p"
| "pathOfResult (Unreachable _ p) = p"

lemma findPath_found_again:
  assumes "findPath svc request = Some (Found p fromCache, svc1)" "\<not> sameTile svc request"
    and "svc_nodesById svcX = svc_nodesById svc"
    and "map_of (svc_routeCache svcX) (requestCacheKey svc request) = Some p"
  shows "findPath svcX request =
           Some (Found p True,
                 svcX\<lparr> svc_routeCache :=
                   refreshRoute (requestCacheKey svc request) p (svc_routeCache svcX) \<rparr>)"
proof -
  from assms(1) obtain a b where
    a: "map_of (svc_nodesById svc) (startTileId request) = Some a" and
    b: "map_of (svc_nodesById svc) (destinationTileId request) = Some b"
    by (auto simp: findPath_def split: option.splits)
  have ok: "\<not> (node_id a \<in> set (blockedSetOf (blockedTileIds request)) \<or> \<not> node_walkable a)"
       "\<not> (node_id b \<in> set (blockedSetOf (blockedTileIds request)) \<or> \<not> node_walkable b)"
    using assms(1) a b by (auto simp: findPath_def Let_def split: if_splits)
  have ne: "node_id a \<noteq> node_id b" using assms(2) a b by (simp add: sameTile_def)
  have k: "requestCacheKey svc request =
           toCacheKey (node_id a) (node_id b) (blockedSetOf (blockedTileIds request))"
    using a b by (simp add: requestCacheKey_def)
  show ?thesis
    using a b ok ne assms(3,4) unfolding k
    by (simp add: findPath_def Let_def refreshRoute_def)
qed

lemma map_of_snoc_new: "k \<notin> fst ` set al \<Longrightarrow> map_of (al @ [(k, v)]) k = Some v"
  by (simp add: map_add_def map_of_None_keys[symmetric])

lemma findPath_stores_found:
  assumes inv: "cacheInv svc"
    and fp: "findPath svc request = Some (Found p fromCache, svc1)" and ns: "\<not> sameTile svc request"
  shows "map_of (svc_routeCache svc1) (requestCacheKey svc request) = Some p"
proof -
  let ?k = "requestCacheKey svc request"
  let ?c = "svc_routeCache svc"
  note i = inv[unfolded cacheInv_def]
  from findPath_cases[OF fp] ns
  consider (hit) "map_of ?c ?k = Some p" "svc1 = svc\<lparr> svc_routeCache := refreshRoute ?k p ?c \<rparr>"
    | (miss) "map_of ?c ?k = None" "?k \<noteq> []"
        "svc1 = svc\<lparr> svc_routeCache := storeRoute (normalizedMaxCachedRoutes svc) ?k p ?c \<rparr>"
    by (auto simp: sameTile_def)
  then show ?thesis
  proof cases
    case hit
    have "?k \<notin> fst ` set (AList.delete ?k ?c)" by (rule AList.delete_notin_dom)
    from map_of_snoc_new[OF this, of p] show ?thesis
      using hit(2) by (simp add: refreshRoute_hit del: map_of_append)
  next
    case miss
    have knew: "?k \<notin> fst ` set ?c" using miss(1) by (simp add: map_of_None_keys)
    have c1: "svc_routeCache svc1 =
        (if length ?c < normalizedMaxCachedRoutes svc then ?c @ [(?k, p)] else tl ?c @ [(?k, p)])"
      using miss(3) storeRoute_miss[of ?c ?k "normalizedMaxCachedRoutes svc" p] i miss(1,2) by simp
    have "?k \<notin> fst ` set (tl ?c)" using knew by (cases ?c) auto
    from map_of_snoc_new[OF this, of p] map_of_snoc_new[OF knew, of p]
    show ?thesis using c1 by (simp del: map_of_append)
  qed
qed

lemma findPath_same_tile:
  assumes "sameTile svc request"
  shows "\<exists>r. (\<forall>cache. findPath (svc\<lparr> svc_routeCache := cache \<rparr>) request =
                        Some (r, svc\<lparr> svc_routeCache := cache \<rparr>)) \<and>
             ((\<exists>reason. r = Unreachable reason []) \<or> (\<exists>i. r = Found [i] False))"
proof -
  from assms obtain a b where
    a: "map_of (svc_nodesById svc) (startTileId request) = Some a" and
    b: "map_of (svc_nodesById svc) (destinationTileId request) = Some b" and
    eq: "node_id a = node_id b"
    by (auto simp: sameTile_def split: option.splits)
  let ?B = "blockedSetOf (blockedTileIds request)"
  show ?thesis
  proof (cases "node_id a \<in> set ?B \<or> \<not> node_walkable a")
    case True
    then have "\<forall>cache. findPath (svc\<lparr> svc_routeCache := cache \<rparr>) request =
                        Some (Unreachable BlockedStart [], svc\<lparr> svc_routeCache := cache \<rparr>)"
      using a b by (simp add: findPath_def Let_def)
    then show ?thesis by blast
  next
    case False
    show ?thesis
    proof (cases "node_id b \<in> set ?B \<or> \<not> node_walkable b")
      case True
      then have "\<forall>cache. findPath (svc\<lparr> svc_routeCache := cache \<rparr>) request =
                        Some (Unreachable BlockedDestination [], svc\<lparr> svc_routeCache := cache \<rparr>)"
        using a b False by (simp add: findPath_def Let_def)
      then show ?thesis by blast
    next
      case nb: False
      have "\<forall>cache. findPath (svc\<lparr> svc_routeCache := cache \<rparr>) request =
                        Some (Found [node_id a] False, svc\<lparr> svc_routeCache := cache \<rparr>)"
        using a b False nb eq by (simp add: findPath_def Let_def)
      then show ?thesis by blast
    qed
  qed
qed

lemma findPath_unreachable_keeps_cache:
  assumes "findPath svc request = Some (Unreachable reason q, svc')"
  shows "svc' = svc \<and> q = []"
  using findPath_cases[OF assms] by auto

lemma findPath_hit_from_cache:
  assumes "findPath svc request = Some (Found p True, svc')"
  shows "(requestCacheKey svc request, p) \<in> set (svc_routeCache svc)"
  using findPath_cases[OF assms] by (auto dest: map_of_SomeD)

lemma findPath_cache_origin:
  assumes inv: "cacheInv svc" and fp: "findPath svc request = Some (result, svc')"
    and kp: "(k, p) \<in> set (svc_routeCache svc')"
  shows "(k, p) \<in> set (svc_routeCache svc) \<or> result = Found p False"
proof -
  let ?k = "requestCacheKey svc request"
  let ?c = "svc_routeCache svc"
  note i = inv[unfolded cacheInv_def]
  from findPath_cases[OF fp]
  consider (same) "svc' = svc"
    | (hit) q where "map_of ?c ?k = Some q" "svc' = svc\<lparr> svc_routeCache := refreshRoute ?k q ?c \<rparr>"
    | (miss) q where "result = Found q False" "map_of ?c ?k = None" "?k \<noteq> []"
        "svc' = svc\<lparr> svc_routeCache := storeRoute (normalizedMaxCachedRoutes svc) ?k q ?c \<rparr>"
    by blast
  then show ?thesis
  proof cases
    case same
    then show ?thesis using kp by simp
  next
    case (hit q)
    have "set (AList.delete ?k ?c) \<subseteq> set ?c" by (auto simp: AList.delete_eq)
    moreover have "(?k, q) \<in> set ?c" using hit(1) by (rule map_of_SomeD)
    ultimately show ?thesis using kp hit(2) by (auto simp: refreshRoute_hit)
  next
    case (miss q)
    have c1: "svc_routeCache svc' =
        (if length ?c < normalizedMaxCachedRoutes svc then ?c @ [(?k, q)] else tl ?c @ [(?k, q)])"
      using miss(4) storeRoute_miss[of ?c ?k "normalizedMaxCachedRoutes svc" q] i miss(2,3) by simp
    have "set (tl ?c) \<subseteq> set ?c" by (cases ?c) auto
    then show ?thesis using kp c1 miss(1) by (auto split: if_splits)
  qed
qed

lemma findPaths_cache_origin:
  "cacheInv svc \<Longrightarrow> findPaths svc requests = Some (results, svc') \<Longrightarrow>
   (k, p) \<in> set (svc_routeCache svc') \<Longrightarrow>
   (k, p) \<in> set (svc_routeCache svc) \<or> (\<exists>j<length results. results ! j = Found p False)"
proof (induction requests arbitrary: svc results)
  case Nil
  then show ?case by simp
next
  case (Cons request requests)
  from Cons.prems(2) obtain result svc1 rs where
    1: "findPath svc request = Some (result, svc1)" and
    2: "findPaths svc1 requests = Some (rs, svc')" and r: "results = result # rs"
    by (auto split: option.splits)
  note i1 = cacheInv_findPath(1)[OF Cons.prems(1) 1]
  from Cons.IH[OF i1 2 Cons.prems(3)]
  consider "(k, p) \<in> set (svc_routeCache svc1)" | j where "j < length rs" "rs ! j = Found p False"
    by blast
  then show ?case
  proof cases
    case 1
    from findPath_cache_origin[OF Cons.prems(1) \<open>findPath svc request = Some (result, svc1)\<close> 1]
    show ?thesis using r by auto
  next
    case 2
    then have "Suc j < length results \<and> results ! Suc j = Found p False" using r by simp
    then show ?thesis by blast
  qed
qed

lemma requestCacheKey_nodes:
  "svc_nodesById svc1 = svc_nodesById svc \<Longrightarrow> requestCacheKey svc1 = requestCacheKey svc"
  by (rule ext) (simp add: requestCacheKey_def)

lemma findPath_inserting:
  assumes inv: "cacheInv svc"
    and fp: "findPath svc request = Some (Found p False, svc')" and ns: "\<not> sameTile svc request"
  shows "svc_routeCache svc' =
           (if length (svc_routeCache svc) < normalizedMaxCachedRoutes svc
            then svc_routeCache svc @ [(requestCacheKey svc request, p)]
            else tl (svc_routeCache svc) @ [(requestCacheKey svc request, p)])"
proof -
  let ?k = "requestCacheKey svc request"
  let ?c = "svc_routeCache svc"
  note i = inv[unfolded cacheInv_def]
  from findPath_cases[OF fp] ns
  have miss: "map_of ?c ?k = None" "?k \<noteq> []"
        "svc' = svc\<lparr> svc_routeCache := storeRoute (normalizedMaxCachedRoutes svc) ?k p ?c \<rparr>"
    by (auto simp: sameTile_def)
  show ?thesis
    using miss(3) storeRoute_miss[of ?c ?k "normalizedMaxCachedRoutes svc" p] i miss(1,2) by simp
qed

lemma findPath_refreshing:
  assumes fp: "findPath svc request = Some (Found p True, svc')"
  shows "map_of (svc_routeCache svc) (requestCacheKey svc request) = Some p"
    and "svc_routeCache svc' =
           AList.delete (requestCacheKey svc request) (svc_routeCache svc) @
           [(requestCacheKey svc request, p)]"
  using findPath_cases[OF fp] by (auto simp: refreshRoute_hit)

lemma sameTile_ids:
  assumes "\<And>i n. map_of (svc_nodesById svc) i = Some n \<Longrightarrow> node_id n = i"
    and "startTileId request \<noteq> destinationTileId request"
  shows "\<not> sameTile svc request"
  using assms by (auto simp: sameTile_def split: option.splits)

lemma findPaths_all_stored:
  assumes nodes: "\<And>i n. map_of nodesW i = Some n \<Longrightarrow> node_id n = i"
  shows "cacheInv svc \<Longrightarrow> svc_nodesById svc = nodesW \<Longrightarrow>
    findPaths svc requests = Some (results, svc') \<Longrightarrow>
    (\<forall>j<length requests. (\<exists>p. results ! j = Found p False) \<and>
        startTileId (requests ! j) \<noteq> destinationTileId (requests ! j)) \<Longrightarrow>
    svc_routeCache svc' =
      drop (length (svc_routeCache svc) + length requests - normalizedMaxCachedRoutes svc)
        (svc_routeCache svc @
         map2 (\<lambda>request result. (requestCacheKey svc request, pathOfResult result)) requests results)"
proof (induction requests arbitrary: svc results)
  case Nil
  then show ?case by (simp add: cacheInv_def)
next
  case (Cons request requests)
  from Cons.prems(3) obtain result svc1 rs where
    1: "findPath svc request = Some (result, svc1)" and
    2: "findPaths svc1 requests = Some (rs, svc')" and r: "results = result # rs"
    by (auto split: option.splits)
  note i1 = cacheInv_findPath[OF Cons.prems(1) 1]
  from Cons.prems(4)[rule_format, of 0] r obtain p where
    p: "result = Found p False" and ne: "startTileId request \<noteq> destinationTileId request"
    by auto
  have ns: "\<not> sameTile svc request"
    using sameTile_ids[of svc request] nodes Cons.prems(2) ne by simp
  let ?k = "requestCacheKey svc request"
  let ?c = "svc_routeCache svc"
  let ?cap = "normalizedMaxCachedRoutes svc"
  let ?E = "map2 (\<lambda>request result. (requestCacheKey svc request, pathOfResult result)) requests rs"
  have c1: "svc_routeCache svc1 = (if length ?c < ?cap then ?c @ [(?k, p)] else tl ?c @ [(?k, p)])"
    using findPath_inserting[OF Cons.prems(1) _ ns] 1 p by simp
  have rest: "\<forall>j<length requests. (\<exists>p. rs ! j = Found p False) \<and>
        startTileId (requests ! j) \<noteq> destinationTileId (requests ! j)"
  proof (intro allI impI)
    fix j assume "j < length requests"
    then have "Suc j < length (request # requests)" by simp
    from Cons.prems(4)[rule_format, OF this] show "(\<exists>p. rs ! j = Found p False) \<and>
        startTileId (requests ! j) \<noteq> destinationTileId (requests ! j)" using r by simp
  qed
  have n1: "svc_nodesById svc1 = nodesW" using i1(3) Cons.prems(2) by simp
  have keq: "requestCacheKey svc1 = requestCacheKey svc"
    using requestCacheKey_nodes[OF i1(3)] .
  from Cons.IH[OF i1(1) n1 2 rest]
  have fin: "svc_routeCache svc' =
      drop (length (svc_routeCache svc1) + length requests - ?cap) (svc_routeCache svc1 @ ?E)"
    unfolding keq i1(2) .
  have capinv: "length ?c \<le> ?cap" "1 \<le> ?cap" using Cons.prems(1) by (simp_all add: cacheInv_def)
  have ent: "map2 (\<lambda>request result. (requestCacheKey svc request, pathOfResult result))
               (request # requests) results = (?k, p) # ?E"
    using r p by simp
  show ?case
  proof (cases "length ?c < ?cap")
    case True
    then show ?thesis unfolding ent using fin c1 by simp
  next
    case False
    then have full: "length ?c = ?cap" using capinv by simp
    then obtain x xs where cx: "?c = x # xs" using capinv(2) by (cases ?c) auto
    have l1: "length (svc_routeCache svc1) = ?cap" using c1 False full cx by simp
    have a1: "length (svc_routeCache svc1) + length requests - ?cap = length requests"
      using l1 by simp
    have a2: "svc_routeCache svc1 @ ?E = xs @ (?k, p) # ?E" using c1 False cx by simp
    have "svc_routeCache svc' = drop (length requests) (xs @ (?k, p) # ?E)"
      using fin unfolding a1 a2 .
    moreover have "drop (length ?c + length (request # requests) - ?cap) (?c @ (?k, p) # ?E)
                   = drop (length requests) (xs @ (?k, p) # ?E)"
    proof -
      have b1: "length ?c + length (request # requests) - ?cap = Suc (length requests)"
        using full by simp
      have b2: "?c @ (?k, p) # ?E = x # (xs @ (?k, p) # ?E)" using cx by simp
      show ?thesis unfolding b1 b2 by (simp only: drop_Suc_Cons)
    qed
    ultimately show ?thesis unfolding ent by (simp only:)
  qed
qed

subsection \<open>A two-tile world for the concrete checks\<close>

definition exampleTiles :: "Tile list" where
  "exampleTiles =
     [\<lparr> tile_id = ''tile_0_0'', coordinate = \<lparr> coord_x = 0, coord_y = 0 \<rparr>,
        tile_type = PathTile, walkable = True \<rparr>,
      \<lparr> tile_id = ''tile_1_0'', coordinate = \<lparr> coord_x = 1, coord_y = 0 \<rparr>,
        tile_type = PathTile, walkable = True \<rparr>]"

definition exampleNodes :: "(TileId, PathfindingNode) js_map" where
  "exampleNodes =
     [(''tile_0_0'', \<lparr> node_id = ''tile_0_0'', node_x = 0, node_y = 0, node_walkable = True,
                       neighbors = [''tile_1_0''] \<rparr>),
      (''tile_1_0'', \<lparr> node_id = ''tile_1_0'', node_x = 1, node_y = 0, node_walkable = True,
                       neighbors = [''tile_0_0''] \<rparr>)]"

definition exampleRequest :: PathfindingRequest where
  "exampleRequest =
     \<lparr> startTileId = ''tile_0_0'', destinationTileId = ''tile_1_0'', blockedTileIds = None \<rparr>"

definition exampleServiceAfter :: PathfindingService where
  "exampleServiceAfter =
     \<lparr> normalizedMaxCachedRoutes = 1, svc_nodesById = exampleNodes,
       svc_routeCache = [(''tile_0_0->tile_1_0|'', [''tile_0_0'', ''tile_1_0''])] \<rparr>"

lemma example_nodes: "createNodesById exampleTiles = exampleNodes"
  by (simp add: createNodesById_def exampleTiles_def exampleNodes_def toCoordinateKey_def
      List.map_filter_def)

lemma example_service:
  "createPathfindingService exampleTiles 1 =
     \<lparr> normalizedMaxCachedRoutes = 1, svc_nodesById = exampleNodes, svc_routeCache = [] \<rparr>"
  by (simp add: createPathfindingService_def example_nodes)

lemma example_search:
  "findShortestPath exampleNodes ''tile_0_0'' ''tile_1_0'' {} =
     Some (Some [''tile_0_0'', ''tile_1_0''])"
  unfolding exampleNodes_def
  apply code_simp
  apply (subst reconstructLoop.simps, simp)
  apply (subst reconstructLoop.simps, simp)
  done

lemma example_lookup:
  "map_of exampleNodes ''tile_0_0'' =
     Some \<lparr> node_id = ''tile_0_0'', node_x = 0, node_y = 0, node_walkable = True,
            neighbors = [''tile_1_0''] \<rparr>"
  "map_of exampleNodes ''tile_1_0'' =
     Some \<lparr> node_id = ''tile_1_0'', node_x = 1, node_y = 0, node_walkable = True,
            neighbors = [''tile_0_0''] \<rparr>"
  by (simp_all add: exampleNodes_def)

lemma example_key: "toCacheKey ''tile_0_0'' ''tile_1_0'' [] = ''tile_0_0->tile_1_0|''"
  by (simp add: toCacheKey_def)

lemma example_first_call:
  "findPath (createPathfindingService exampleTiles 1) exampleRequest =
     Some (Found [''tile_0_0'', ''tile_1_0''] False, exampleServiceAfter)"
  unfolding example_service
  by (simp add: findPath_def exampleRequest_def blockedSetOf_def example_key Let_def
      example_search exampleServiceAfter_def example_lookup)

lemma example_second_call:
  "findPath exampleServiceAfter exampleRequest =
     Some (Found [''tile_0_0'', ''tile_1_0''] True, exampleServiceAfter)"
  by (simp add: findPath_def exampleRequest_def blockedSetOf_def example_key Let_def
      exampleServiceAfter_def example_lookup)

lemma example_inv: "cacheInv exampleServiceAfter"
  by (simp add: cacheInv_def exampleServiceAfter_def)

lemma example_not_same:
  "\<not> sameTile (createPathfindingService exampleTiles 1) exampleRequest"
  unfolding example_service by (simp add: sameTile_def exampleRequest_def exampleNodes_def)

lemma service_history:
  assumes "findPaths (createPathfindingService tiles cap) history = Some (earlier, svc)"
  shows "cacheInv svc"
    and "normalizedMaxCachedRoutes svc = (if 0 < cap then nat cap else 1)"
    and "svc_nodesById svc = createNodesById tiles"
  using findPaths_inv[OF cacheInv_create, of tiles cap history] assms
  by (auto simp: createPathfindingService_def)

lemma service_node_ids:
  assumes "svc_nodesById svc = createNodesById tiles"
    and "map_of (svc_nodesById svc) i = Some n"
  shows "node_id n = i"
  using assms createNodesById_node_id[of tiles i n] by simp

lemma sameTile_service:
  assumes "svc_nodesById svc = createNodesById tiles"
  shows "sameTile svc request \<longleftrightarrow>
           startTileId request = destinationTileId request \<and>
           startTileId request \<in> dom (map_of (svc_nodesById svc))"
  using service_node_ids[OF assms]
  by (auto simp: sameTile_def split: option.splits)

definition exampleReturnRequest :: PathfindingRequest where
  "exampleReturnRequest =
     \<lparr> startTileId = ''tile_1_0'', destinationTileId = ''tile_0_0'', blockedTileIds = None \<rparr>"

definition exampleServiceLater :: PathfindingService where
  "exampleServiceLater =
     \<lparr> normalizedMaxCachedRoutes = 1, svc_nodesById = exampleNodes,
       svc_routeCache = [(''tile_1_0->tile_0_0|'', [''tile_1_0'', ''tile_0_0''])] \<rparr>"

lemma example_return_search:
  "findShortestPath exampleNodes ''tile_1_0'' ''tile_0_0'' {} =
     Some (Some [''tile_1_0'', ''tile_0_0''])"
  unfolding exampleNodes_def
  apply code_simp
  apply (subst reconstructLoop.simps, simp)
  apply (subst reconstructLoop.simps, simp)
  done

lemma example_return_key: "toCacheKey ''tile_1_0'' ''tile_0_0'' [] = ''tile_1_0->tile_0_0|''"
  by (simp add: toCacheKey_def)

lemma example_return_call:
  "findPath exampleServiceAfter exampleReturnRequest =
     Some (Found [''tile_1_0'', ''tile_0_0''] False, exampleServiceLater)"
  by (simp add: findPath_def exampleReturnRequest_def blockedSetOf_def example_return_key Let_def
      example_return_search exampleServiceAfter_def exampleServiceLater_def example_lookup)

lemma example_history:
  "findPaths (createPathfindingService exampleTiles 1) [exampleRequest] =
     Some ([Found [''tile_0_0'', ''tile_1_0''] False], exampleServiceAfter)"
  by (simp add: example_first_call)

text \<open>
  C3.  Take a service created with \<^verbatim>\<open>maxCachedRoutes = cap\<close> and then used for any sequence of
  \<^verbatim>\<open>findPath\<close> calls (\<open>history\<close>).  Every call returns.  The capacity of the service is \<open>cap\<close>
  (the source replaces a value that is not a positive integer by 1), and after the calls the
  route cache holds at most that many entries.  The cache lists its entries from least to most
  recently used:
  a hit leaves the other entries in their order and moves the hit entry, with its path, to the
  most-recently-used end; a call that inserts a new key appends it, and when the cache was full
  it removes the entry at the least-recently-used end and no other.  Hence after any run of
  inserting calls (no hits) the cache is what the appended entries leave when the oldest are
  dropped down to the capacity: inserting capacity + 1 keys into an empty cache drops exactly
  the first.
\<close>

theorem route_cache_bounded_lru:
  assumes hist: "findPaths (createPathfindingService tiles cap) history = Some (earlier, svc)"
  shows "(\<exists>results svcN. findPaths svc requests = Some (results, svcN)) \<and>
         normalizedMaxCachedRoutes svc = (if 0 < cap then nat cap else 1) \<and>
         length (svc_routeCache svc) \<le> normalizedMaxCachedRoutes svc \<and>
         (findPath svc requestH = Some (Found pH True, svcH) \<longrightarrow>
            map_of (svc_routeCache svc) (requestCacheKey svc requestH) = Some pH \<and>
            svc_routeCache svcH =
              AList.delete (requestCacheKey svc requestH) (svc_routeCache svc) @
              [(requestCacheKey svc requestH, pH)]) \<and>
         (findPath svc requestM = Some (Found pM False, svcM) \<and>
          startTileId requestM \<noteq> destinationTileId requestM \<longrightarrow>
            map_of (svc_routeCache svc) (requestCacheKey svc requestM) = None \<and>
            svc_routeCache svcM =
              (if length (svc_routeCache svc) < normalizedMaxCachedRoutes svc
               then svc_routeCache svc @ [(requestCacheKey svc requestM, pM)]
               else tl (svc_routeCache svc) @ [(requestCacheKey svc requestM, pM)])) \<and>
         (findPaths svc inserts = Some (inserted, svcI) \<and>
          (\<forall>j<length inserts. (\<exists>p. inserted ! j = Found p False) \<and>
               startTileId (inserts ! j) \<noteq> destinationTileId (inserts ! j)) \<longrightarrow>
            svc_routeCache svcI =
              drop (length (svc_routeCache svc) + length inserts - normalizedMaxCachedRoutes svc)
                (svc_routeCache svc @
                 map2 (\<lambda>request result. (requestCacheKey svc request, pathOfResult result))
                   inserts inserted))"
proof -
  note inv = service_history(1)[OF hist]
  note nodes = service_history(3)[OF hist]
  have ids: "\<And>i n. map_of (createNodesById tiles) i = Some n \<Longrightarrow> node_id n = i"
    by (rule createNodesById_node_id(1))
  have returns: "\<exists>results svcN. findPaths svc requests = Some (results, svcN)"
    using findPaths_inv[OF inv, of requests] by blast
  have cap: "normalizedMaxCachedRoutes svc = (if 0 < cap then nat cap else 1)"
    by (rule service_history(2)[OF hist])
  have bound: "length (svc_routeCache svc) \<le> normalizedMaxCachedRoutes svc"
    using inv by (simp add: cacheInv_def)
  have hit: "findPath svc requestH = Some (Found pH True, svcH) \<longrightarrow>
            map_of (svc_routeCache svc) (requestCacheKey svc requestH) = Some pH \<and>
            svc_routeCache svcH =
              AList.delete (requestCacheKey svc requestH) (svc_routeCache svc) @
              [(requestCacheKey svc requestH, pH)]"
    using findPath_refreshing[of svc requestH pH svcH] by blast
  have miss: "findPath svc requestM = Some (Found pM False, svcM) \<and>
          startTileId requestM \<noteq> destinationTileId requestM \<longrightarrow>
            map_of (svc_routeCache svc) (requestCacheKey svc requestM) = None \<and>
            svc_routeCache svcM =
              (if length (svc_routeCache svc) < normalizedMaxCachedRoutes svc
               then svc_routeCache svc @ [(requestCacheKey svc requestM, pM)]
               else tl (svc_routeCache svc) @ [(requestCacheKey svc requestM, pM)])"
  proof (intro impI, elim conjE)
    assume fp: "findPath svc requestM = Some (Found pM False, svcM)"
      and ne: "startTileId requestM \<noteq> destinationTileId requestM"
    have ns: "\<not> sameTile svc requestM"
      using ne by (simp add: sameTile_service[OF nodes])
    have "map_of (svc_routeCache svc) (requestCacheKey svc requestM) = None"
      using findPath_cases[OF fp] ns by (auto simp: sameTile_def)
    with findPath_inserting[OF inv fp ns]
    show "map_of (svc_routeCache svc) (requestCacheKey svc requestM) = None \<and>
            svc_routeCache svcM =
              (if length (svc_routeCache svc) < normalizedMaxCachedRoutes svc
               then svc_routeCache svc @ [(requestCacheKey svc requestM, pM)]
               else tl (svc_routeCache svc) @ [(requestCacheKey svc requestM, pM)])"
      by simp
  qed
  have run: "findPaths svc inserts = Some (inserted, svcI) \<and>
          (\<forall>j<length inserts. (\<exists>p. inserted ! j = Found p False) \<and>
               startTileId (inserts ! j) \<noteq> destinationTileId (inserts ! j)) \<longrightarrow>
            svc_routeCache svcI =
              drop (length (svc_routeCache svc) + length inserts - normalizedMaxCachedRoutes svc)
                (svc_routeCache svc @
                 map2 (\<lambda>request result. (requestCacheKey svc request, pathOfResult result))
                   inserts inserted)"
    using findPaths_all_stored[of "createNodesById tiles" svc inserts inserted svcI, OF ids inv nodes]
    by blast
  from returns cap bound hit miss run show ?thesis by (intro conjI)
qed

theorem route_cache_bounded_lru_witness:
  "findPaths (createPathfindingService exampleTiles 1) [exampleRequest] =
     Some ([Found [''tile_0_0'', ''tile_1_0''] False], exampleServiceAfter) \<and>
   findPath exampleServiceAfter exampleRequest =
     Some (Found [''tile_0_0'', ''tile_1_0''] True, exampleServiceAfter) \<and>
   findPath exampleServiceAfter exampleReturnRequest =
     Some (Found [''tile_1_0'', ''tile_0_0''] False, exampleServiceLater) \<and>
   findPaths exampleServiceAfter [exampleReturnRequest] =
     Some ([Found [''tile_1_0'', ''tile_0_0''] False], exampleServiceLater) \<and>
   normalizedMaxCachedRoutes exampleServiceAfter = 1 \<and>
   length (svc_routeCache exampleServiceAfter) \<le> 1 \<and>
   map_of (svc_routeCache exampleServiceAfter)
     (requestCacheKey exampleServiceAfter exampleRequest) = Some [''tile_0_0'', ''tile_1_0''] \<and>
   svc_routeCache exampleServiceLater =
     tl (svc_routeCache exampleServiceAfter) @
     [(requestCacheKey exampleServiceAfter exampleReturnRequest, [''tile_1_0'', ''tile_0_0''])] \<and>
   svc_routeCache exampleServiceLater =
     drop 1 (svc_routeCache exampleServiceAfter @
       [(requestCacheKey exampleServiceAfter exampleReturnRequest, [''tile_1_0'', ''tile_0_0''])])"
proof -
  have later: "findPaths exampleServiceAfter [exampleReturnRequest] =
     Some ([Found [''tile_1_0'', ''tile_0_0''] False], exampleServiceLater)"
    by (simp add: example_return_call)
  have ne: "startTileId exampleReturnRequest \<noteq> destinationTileId exampleReturnRequest"
    by (simp add: exampleReturnRequest_def)
  have full: "\<not> length (svc_routeCache exampleServiceAfter) <
                normalizedMaxCachedRoutes exampleServiceAfter"
    by (simp add: exampleServiceAfter_def)
  from route_cache_bounded_lru[OF example_history,
      of "[exampleReturnRequest]"
         exampleRequest "[''tile_0_0'', ''tile_1_0'']" exampleServiceAfter
         exampleReturnRequest "[''tile_1_0'', ''tile_0_0'']" exampleServiceLater
         "[exampleReturnRequest]" "[Found [''tile_1_0'', ''tile_0_0''] False]" exampleServiceLater]
  show ?thesis
    using example_history example_second_call example_return_call later ne full
    by (simp add: exampleServiceAfter_def)
qed

definition exampleStayRequest :: PathfindingRequest where
  "exampleStayRequest =
     \<lparr> startTileId = ''tile_0_0'', destinationTileId = ''tile_0_0'', blockedTileIds = None \<rparr>"

definition exampleBlockedRequest :: PathfindingRequest where
  "exampleBlockedRequest =
     \<lparr> startTileId = ''tile_0_0'', destinationTileId = ''tile_1_0'',
       blockedTileIds = Some [''tile_1_0''] \<rparr>"

lemma example_stay_call:
  "findPath exampleServiceAfter exampleStayRequest =
     Some (Found [''tile_0_0''] False, exampleServiceAfter)"
  by (simp add: findPath_def exampleStayRequest_def blockedSetOf_def Let_def
      exampleServiceAfter_def example_lookup)

lemma example_blocked_call:
  "findPath exampleServiceAfter exampleBlockedRequest =
     Some (Unreachable BlockedDestination [], exampleServiceAfter)"
  by (simp add: findPath_def exampleBlockedRequest_def blockedSetOf_def Let_def
      exampleServiceAfter_def example_lookup)

text \<open>
  C4.  Take a service created from a tile list and then used for any sequence of
  \<^verbatim>\<open>findPath\<close> calls (\<open>history\<close>, with results \<open>earlier\<close>).
  Round trip: when a call for two different tiles returns "found" with path \<open>p\<close>, the same
  request sent again right after it returns "found", \<^verbatim>\<open>fromCache: true\<close> and the same \<open>p\<close>.
  Equal start and destination: the call returns what it returns whatever the cache holds and
  leaves the cache as it is; the result is never from the cache, and when the tile is known,
  walkable and not blocked it is "found" with the path of that one tile.
  Unreachable: a call that returns "unreachable" leaves the cache as it is and its path is
  empty; every path in the cache is the path of an earlier "found" result that was computed by
  the search, and a result served from the cache is "found" with such a path.
\<close>

theorem route_cache_round_trip:
  assumes hist: "findPaths (createPathfindingService tiles cap) history = Some (earlier, svc)"
  shows "(findPath svc request = Some (Found p fromCache, svc1) \<and>
          startTileId request \<noteq> destinationTileId request \<longrightarrow>
            (\<exists>svc2. findPath svc1 request = Some (Found p True, svc2))) \<and>
         (startTileId requestE = destinationTileId requestE \<and>
          findPath svc requestE = Some (resultE, svcE) \<longrightarrow>
            svcE = svc \<and>
            (\<forall>cache. findPath (svc\<lparr> svc_routeCache := cache \<rparr>) requestE =
                       Some (resultE, svc\<lparr> svc_routeCache := cache \<rparr>)) \<and>
            (\<forall>q. resultE \<noteq> Found q True) \<and>
            (\<forall>node. map_of (svc_nodesById svc) (startTileId requestE) = Some node \<and>
                    node_walkable node \<and>
                    startTileId requestE \<notin> set (blockedSetOf (blockedTileIds requestE)) \<longrightarrow>
                    resultE = Found [startTileId requestE] False)) \<and>
         (findPath svc requestU = Some (Unreachable reason pathU, svcU) \<longrightarrow>
            svcU = svc \<and> pathU = []) \<and>
         (\<forall>key cached. (key, cached) \<in> set (svc_routeCache svc) \<longrightarrow>
            (\<exists>j<length earlier. earlier ! j = Found cached False)) \<and>
         (findPath svc requestH = Some (Found pH True, svcH) \<longrightarrow>
            (\<exists>j<length earlier. earlier ! j = Found pH False))"
proof -
  note inv = service_history(1)[OF hist]
  note nodes = service_history(3)[OF hist]
  have again: "findPath svc request = Some (Found p fromCache, svc1) \<and>
          startTileId request \<noteq> destinationTileId request \<longrightarrow>
            (\<exists>svc2. findPath svc1 request = Some (Found p True, svc2))"
  proof (intro impI, elim conjE)
    assume fp: "findPath svc request = Some (Found p fromCache, svc1)"
      and ne: "startTileId request \<noteq> destinationTileId request"
    have ns: "\<not> sameTile svc request"
      using ne by (simp add: sameTile_service[OF nodes])
    have same_nodes: "svc_nodesById svc1 = svc_nodesById svc"
      by (rule cacheInv_findPath(3)[OF inv fp])
    have stored: "map_of (svc_routeCache svc1) (requestCacheKey svc request) = Some p"
      by (rule findPath_stores_found[OF inv fp ns])
    from findPath_found_again[OF fp ns same_nodes stored]
    show "\<exists>svc2. findPath svc1 request = Some (Found p True, svc2)" by blast
  qed
  have equal: "startTileId requestE = destinationTileId requestE \<and>
          findPath svc requestE = Some (resultE, svcE) \<longrightarrow>
            svcE = svc \<and>
            (\<forall>cache. findPath (svc\<lparr> svc_routeCache := cache \<rparr>) requestE =
                       Some (resultE, svc\<lparr> svc_routeCache := cache \<rparr>)) \<and>
            (\<forall>q. resultE \<noteq> Found q True) \<and>
            (\<forall>node. map_of (svc_nodesById svc) (startTileId requestE) = Some node \<and>
                    node_walkable node \<and>
                    startTileId requestE \<notin> set (blockedSetOf (blockedTileIds requestE)) \<longrightarrow>
                    resultE = Found [startTileId requestE] False)"
  proof (intro impI, elim conjE)
    assume eq: "startTileId requestE = destinationTileId requestE"
      and fp: "findPath svc requestE = Some (resultE, svcE)"
    show "svcE = svc \<and>
            (\<forall>cache. findPath (svc\<lparr> svc_routeCache := cache \<rparr>) requestE =
                       Some (resultE, svc\<lparr> svc_routeCache := cache \<rparr>)) \<and>
            (\<forall>q. resultE \<noteq> Found q True) \<and>
            (\<forall>node. map_of (svc_nodesById svc) (startTileId requestE) = Some node \<and>
                    node_walkable node \<and>
                    startTileId requestE \<notin> set (blockedSetOf (blockedTileIds requestE)) \<longrightarrow>
                    resultE = Found [startTileId requestE] False)"
    proof (cases "map_of (svc_nodesById svc) (startTileId requestE)")
      case None
      then show ?thesis using fp by (auto simp: findPath_def)
    next
      case (Some node)
      have nid: "node_id node = startTileId requestE"
        by (rule service_node_ids[OF nodes Some])
      have st: "sameTile svc requestE"
        using Some eq by (simp add: sameTile_service[OF nodes] domI)
      from findPath_same_tile[OF st] obtain r where
        r1: "\<And>cache. findPath (svc\<lparr> svc_routeCache := cache \<rparr>) requestE =
                        Some (r, svc\<lparr> svc_routeCache := cache \<rparr>)"
        and r2: "(\<exists>reason. r = Unreachable reason []) \<or> (\<exists>i. r = Found [i] False)"
        by blast
      from r1[of "svc_routeCache svc"] fp have rr: "resultE = r" "svcE = svc" by simp_all
      have single: "\<forall>n. map_of (svc_nodesById svc) (startTileId requestE) = Some n \<and>
                    node_walkable n \<and>
                    startTileId requestE \<notin> set (blockedSetOf (blockedTileIds requestE)) \<longrightarrow>
                    resultE = Found [startTileId requestE] False"
        using fp Some eq nid by (auto simp: findPath_def Let_def)
      from rr r1 r2 single show ?thesis by auto
    qed
  qed
  have unreachable: "findPath svc requestU = Some (Unreachable reason pathU, svcU) \<longrightarrow>
            svcU = svc \<and> pathU = []"
    using findPath_unreachable_keeps_cache[of svc requestU reason pathU svcU] by blast
  have origin: "\<forall>key cached. (key, cached) \<in> set (svc_routeCache svc) \<longrightarrow>
            (\<exists>j<length earlier. earlier ! j = Found cached False)"
    using findPaths_cache_origin[OF cacheInv_create hist]
    by (auto simp: createPathfindingService_def)
  have served: "findPath svc requestH = Some (Found pH True, svcH) \<longrightarrow>
            (\<exists>j<length earlier. earlier ! j = Found pH False)"
    using findPath_hit_from_cache[of svc requestH pH svcH] origin by blast
  from again equal unreachable origin served show ?thesis by (intro conjI)
qed

theorem route_cache_round_trip_witness:
  "findPaths (createPathfindingService exampleTiles 1) [exampleRequest] =
     Some ([Found [''tile_0_0'', ''tile_1_0''] False], exampleServiceAfter) \<and>
   findPath exampleServiceAfter exampleReturnRequest =
     Some (Found [''tile_1_0'', ''tile_0_0''] False, exampleServiceLater) \<and>
   startTileId exampleReturnRequest \<noteq> destinationTileId exampleReturnRequest \<and>
   (\<exists>svc2. findPath exampleServiceLater exampleReturnRequest =
            Some (Found [''tile_1_0'', ''tile_0_0''] True, svc2)) \<and>
   startTileId exampleStayRequest = destinationTileId exampleStayRequest \<and>
   findPath exampleServiceAfter exampleStayRequest =
     Some (Found [''tile_0_0''] False, exampleServiceAfter) \<and>
   map_of (svc_nodesById exampleServiceAfter) (startTileId exampleStayRequest) =
     Some \<lparr> node_id = ''tile_0_0'', node_x = 0, node_y = 0, node_walkable = True,
            neighbors = [''tile_1_0''] \<rparr> \<and>
   startTileId exampleStayRequest \<notin> set (blockedSetOf (blockedTileIds exampleStayRequest)) \<and>
   findPath (exampleServiceAfter\<lparr> svc_routeCache := [] \<rparr>) exampleStayRequest =
     Some (Found [''tile_0_0''] False, exampleServiceAfter\<lparr> svc_routeCache := [] \<rparr>) \<and>
   findPath exampleServiceAfter exampleBlockedRequest =
     Some (Unreachable BlockedDestination [], exampleServiceAfter) \<and>
   (''tile_0_0->tile_1_0|'', [''tile_0_0'', ''tile_1_0'']) \<in>
     set (svc_routeCache exampleServiceAfter) \<and>
   findPath exampleServiceAfter exampleRequest =
     Some (Found [''tile_0_0'', ''tile_1_0''] True, exampleServiceAfter) \<and>
   (\<exists>j<length [Found [''tile_0_0'', ''tile_1_0''] False].
      [Found [''tile_0_0'', ''tile_1_0''] False] ! j = Found [''tile_0_0'', ''tile_1_0''] False)"
proof -
  have ne: "startTileId exampleReturnRequest \<noteq> destinationTileId exampleReturnRequest"
    by (simp add: exampleReturnRequest_def)
  have eq: "startTileId exampleStayRequest = destinationTileId exampleStayRequest"
    by (simp add: exampleStayRequest_def)
  have node: "map_of (svc_nodesById exampleServiceAfter) (startTileId exampleStayRequest) =
     Some \<lparr> node_id = ''tile_0_0'', node_x = 0, node_y = 0, node_walkable = True,
            neighbors = [''tile_1_0''] \<rparr>"
    by (simp add: exampleServiceAfter_def exampleStayRequest_def example_lookup)
  have free: "startTileId exampleStayRequest \<notin>
                set (blockedSetOf (blockedTileIds exampleStayRequest))"
    by (simp add: exampleStayRequest_def blockedSetOf_def)
  have entry: "(''tile_0_0->tile_1_0|'', [''tile_0_0'', ''tile_1_0'']) \<in>
     set (svc_routeCache exampleServiceAfter)"
    by (simp add: exampleServiceAfter_def)
  note inst = route_cache_round_trip[OF example_history,
      of exampleReturnRequest "[''tile_1_0'', ''tile_0_0'']" False exampleServiceLater
         exampleStayRequest "Found [''tile_0_0''] False" exampleServiceAfter
         exampleBlockedRequest BlockedDestination "[]" exampleServiceAfter
         exampleRequest "[''tile_0_0'', ''tile_1_0'']" exampleServiceAfter]
  from inst have a: "\<exists>svc2. findPath exampleServiceLater exampleReturnRequest =
            Some (Found [''tile_1_0'', ''tile_0_0''] True, svc2)"
    using example_return_call ne by blast
  from inst have b: "findPath (exampleServiceAfter\<lparr> svc_routeCache := [] \<rparr>) exampleStayRequest =
     Some (Found [''tile_0_0''] False, exampleServiceAfter\<lparr> svc_routeCache := [] \<rparr>)"
    using example_stay_call eq by blast
  from inst have c: "\<exists>j<length [Found [''tile_0_0'', ''tile_1_0''] False].
      [Found [''tile_0_0'', ''tile_1_0''] False] ! j = Found [''tile_0_0'', ''tile_1_0''] False"
    using example_second_call by blast
  from example_history example_return_call ne a eq example_stay_call node free b
    example_blocked_call entry example_second_call c
  show ?thesis by (intro conjI)
qed

section \<open>Shortest routes on the tile grid\<close>















lemma known_ids_tiles:
  "dom (map_of (createNodesById tiles)) = tile_id ` set tiles"
proof -
  have "dom (map_of (createNodesById tiles)) =
        fst ` set (rev (map (\<lambda>t. (tile_id t, nodeOfTile tiles t)) tiles))"
    using createNodesById_lookup[of tiles] by (metis dom_map_of_conv_image_fst ext)
  then show ?thesis by (auto simp: image_iff)
qed


















section \<open>Snapshot codec: round trip and version check\<close>

lemma jsInt_number [simp]:
  "typeOf (jsInt n) = TypeNumber" "numberIsInteger (jsInt n)" "numberIsFinite (jsInt n)"
  "jsInt n \<noteq> JUndefined"
  by (simp_all add: jsInt_def numberIsInteger_def numberIsFinite_def)

lemma jsInt_compare [simp]:
  "numGe (jsInt n) (of_int k) = (k \<le> n)" "numLe (jsInt n) (of_int k) = (n \<le> k)"
  "numGt (jsInt n) (of_int k) = (k < n)" "numLt (jsInt n) (of_int k) = (n < k)"
  by (simp_all add: jsInt_def numGe_def numLe_def numGt_def numLt_def)

lemma jsInt_compare_0 [simp]:
  "numGe (jsInt n) 0 = (0 \<le> n)" "numLe (jsInt n) 0 = (n \<le> 0)" "numLt (jsInt n) 0 = (n < 0)"
  using jsInt_compare[of n 0] by simp_all

lemma jsInt_compare_1 [simp]:
  "numGe (jsInt n) 1 = (1 \<le> n)" "numLt (jsInt n) 1 = (n < 1)"
  using jsInt_compare[of n 1] by simp_all

lemma jsInt_compare_1439 [simp]:
  "numLe (jsInt n) 1439 = (n \<le> 1439)" "numGt (jsInt n) 1439 = (1439 < n)"
  using jsInt_compare[of n 1439] by simp_all

lemma names_accepted [simp]:
  "isMemorySourceType (memorySourceTypeName t)" "isNpcState (npcStateName st)"
  "isVillagerActionType (actionName a)"
  by (cases t, simp_all add: isMemorySourceType_def MEMORY_SOURCE_TYPES_def,
      cases st, simp_all add: isNpcState_def NPC_STATES_def,
      cases a, simp_all add: isVillagerActionType_def VILLAGER_ACTIONS_def)

lemma getProp_Cons [simp]:
  "getProp (JObj ((k, x) # properties)) k' = (if k = k' then x else getProp (JObj properties) k')"
  by (simp add: getProp_def)

lemma getProp_Nil [simp]: "getProp (JObj []) k = JUndefined"
  by (simp add: getProp_def)

lemma getProp_optional [simp]:
  "getProp (JObj (optionalProp k enc x @ properties)) k' =
     (case x of
        None \<Rightarrow> getProp (JObj properties) k'
      | Some y \<Rightarrow> if k = k' then enc y else getProp (JObj properties) k')"
  by (cases x) (simp_all add: optionalProp_def)

lemma getProp_optional_last [simp]:
  "getProp (JObj (optionalProp k enc x)) k' =
     (case x of None \<Rightarrow> JUndefined | Some y \<Rightarrow> if k = k' then enc y else JUndefined)"
  by (cases x) (simp_all add: optionalProp_def)

lemma isObjectLike_JObj [simp]: "isObjectLike (JObj properties)"
  by (simp add: isObjectLike_def)

lemma stringWhere_JStr [simp]: "stringWhere test (JStr s) = test s"
  by (simp add: stringWhere_def)

lemma arrayWhereEvery_map [simp]:
  "arrayWhereEvery test (JArr (map enc xs)) = list_all (\<lambda>x. test (enc x)) xs"
  by (simp add: arrayWhereEvery_def list_all_iff)



lemma source_object [simp]:
  "truthy (jsMemorySource s)" "typeOf (jsMemorySource s) = TypeObject"
  by (simp_all add: jsMemorySource_def)





lemma intent_object [simp]:
  "truthy (jsIntent i)" "typeOf (jsIntent i) = TypeObject" "jsIntent i \<noteq> JUndefined"
  by (simp_all add: jsIntent_def)

lemma replan_object [simp]: "isObjectLike (jsReplanState r)"
  by (simp add: jsReplanState_def)



text \<open>Values that hold nothing JSON drops or replaces.\<close>

fun jsonClean :: "js \<Rightarrow> bool" where
  "jsonClean JUndefined = False"
| "jsonClean JOther = False"
| "jsonClean JNull = True"
| "jsonClean (JBool _) = True"
| "jsonClean (JNum _) = True"
| "jsonClean (JNonFinite _) = False"
| "jsonClean (JStr _) = True"
| "jsonClean (JArr xs) = list_all jsonClean xs"
| "jsonClean (JObj properties) = list_all (\<lambda>p. jsonClean (snd p)) properties"



lemma optionalProp_clean [simp]:
  "list_all (\<lambda>p. jsonClean (snd p)) (optionalProp k enc x) =
     (case x of None \<Rightarrow> True | Some y \<Rightarrow> jsonClean (enc y))"
  by (cases x) (simp_all add: optionalProp_def)

lemma jsInt_clean [simp]: "jsonClean (jsInt n)"
  by (simp add: jsInt_def)

lemma memory_clean [simp]:
  "jsonClean (jsSimulationTime t)" "jsonClean (jsMemorySource src)"
  "jsonClean (jsShortTermMemory sm)" "jsonClean (jsLongTermMemory lm)"
  by (simp_all add: jsSimulationTime_def jsMemorySource_def jsShortTermMemory_def
      jsLongTermMemory_def jsMemoryBase_def split: option.splits)

lemma store_clean [simp]: "jsonClean (jsMemoryStore st)"
  by (simp add: jsMemoryStore_def list_all_iff)

lemma intent_clean [simp]: "jsonClean (jsIntent i)"
  by (simp add: jsIntent_def split: option.splits)

lemma replan_clean [simp]: "jsonClean (jsReplanState r)"
  by (simp add: jsReplanState_def split: option.splits)

lemma npc_clean [simp]: "jsonClean (jsNpc n)"
  by (simp add: jsNpc_def)








end
